theory Spec2Isabelle
  imports Main "HOL-Library.Word"
begin

unbundle bit_operations_syntax

chapter \<open>The pixel core of iff2gif: embedding\<close>

section \<open>Data model\<close>

type_synonym uint8_t = "8 word"

text \<open>A palette entry: 8-bit red, green and blue.\<close>

record ColorRegister =
  red :: uint8_t
  green :: uint8_t
  blue :: uint8_t

text \<open>
  One entry of an error-diffusion kernel (\<open>ChunkyBitmap::Diffuser\<close>): a 16.16 fixed-point
  weight and the fixed-capacity array \<open>to\<close> of the \<open>(x, y)\<close> offsets that receive it.
\<close>

record Diffuser =
  weight :: int
  to :: "(int \<times> int) list"

text \<open>
  Modelled from the spec: the capacity of the array \<open>to\<close> is declared in the header
  \<open>iff2gif.h\<close>, which is not among the sources; the spec calls it "a small fixed-capacity
  list". The largest initialiser in \<open>chunky.cpp\<close> (Atkinson) has six targets, so six is the
  least capacity the table compiles with.
\<close>

definition countof_to :: nat where
  "countof_to = 6"

text \<open>
  C++ aggregate initialisation: the targets that are written out, then zeros up to the
  capacity of the array. The entry \<open>{ 0 }\<close> that ends every kernel is \<open>Diffuser_init 0 []\<close>.
\<close>

definition Diffuser_init :: "int \<Rightarrow> (int \<times> int) list \<Rightarrow> Diffuser" where
  "Diffuser_init w ts = \<lparr>weight = w, to = ts @ replicate (countof_to - length ts) (0, 0)\<rparr>"

section \<open>The kernel table (chunky.cpp, lines 315 to 376)\<close>

definition FloydSteinberg :: "Diffuser list" where
  "FloydSteinberg =
    [Diffuser_init 28672 [(1, 0)],
     Diffuser_init 12288 [(-1, 1)],
     Diffuser_init 20480 [(0, 1)],
     Diffuser_init 4096 [(1, 1)],
     Diffuser_init 0 []]"

definition JarvisJudiceNinke :: "Diffuser list" where
  "JarvisJudiceNinke =
    [Diffuser_init 9557 [(1, 0), (0, 1)],
     Diffuser_init 6826 [(2, 0), (-1, 1), (1, 1), (0, 2)],
     Diffuser_init 4096 [(-2, 1), (2, 1), (-1, 2), (1, 2)],
     Diffuser_init 1365 [(-2, 2), (2, 2)],
     Diffuser_init 0 []]"

definition Stucki :: "Diffuser list" where
  "Stucki =
    [Diffuser_init 12483 [(1, 0), (0, 1)],
     Diffuser_init 6241 [(2, 0), (-1, 1), (1, 1), (0, 2)],
     Diffuser_init 3120 [(-2, 1), (2, 1), (-1, 2), (1, 2)],
     Diffuser_init 1560 [(-2, 2), (2, 2)],
     Diffuser_init 0 []]"

definition Atkinson :: "Diffuser list" where
  "Atkinson =
    [Diffuser_init 8192 [(1, 0), (2, 0), (-1, 1), (0, 1), (1, 1), (0, 2)],
     Diffuser_init 0 []]"

definition Burkes :: "Diffuser list" where
  "Burkes =
    [Diffuser_init 16384 [(1, 0), (0, 1)],
     Diffuser_init 8192 [(2, 0), (-1, 1), (1, 1)],
     Diffuser_init 4096 [(-2, 1), (2, 1)],
     Diffuser_init 0 []]"

definition Sierra3 :: "Diffuser list" where
  "Sierra3 =
    [Diffuser_init 10240 [(1, 0), (0, 1)],
     Diffuser_init 8192 [(-1, 1), (1, 1)],
     Diffuser_init 6144 [(2, 0), (0, 2)],
     Diffuser_init 4096 [(-2, 1), (2, 1), (-1, 2), (1, 2)],
     Diffuser_init 0 []]"

definition Sierra2 :: "Diffuser list" where
  "Sierra2 =
    [Diffuser_init 16384 [(1, 0)],
     Diffuser_init 12288 [(2, 0), (0, 1)],
     Diffuser_init 8192 [(-1, 1), (1, 1)],
     Diffuser_init 4096 [(-2, 1), (2, 1)],
     Diffuser_init 0 []]"

definition SierraLite :: "Diffuser list" where
  "SierraLite =
    [Diffuser_init 32768 [(1, 0)],
     Diffuser_init 16384 [(-1, 1), (0, 1)],
     Diffuser_init 0 []]"

definition ErrorDiffusionKernels :: "Diffuser list list" where
  "ErrorDiffusionKernels =
    [FloydSteinberg, JarvisJudiceNinke, Stucki, Burkes, Atkinson, Sierra3, Sierra2, SierraLite]"

text \<open>
  The two loops of \<open>RGB2P_ErrorDiffusion\<close> that walk a kernel decide what counts as an
  entry and as a target: the outer one runs while \<open>kernel[i].weight != 0\<close>, the inner one
  while \<open>j < countof(kernel[i].to)\<close> and \<open>kernel[i].to[j].x | kernel[i].to[j].y\<close> is not
  zero.
\<close>

definition kernel_entries :: "Diffuser list \<Rightarrow> Diffuser list" where
  "kernel_entries k = takeWhile (\<lambda>d. weight d \<noteq> 0) k"

definition targets :: "Diffuser \<Rightarrow> (int \<times> int) list" where
  "targets d = takeWhile (\<lambda>t. (fst t OR snd t) \<noteq> 0) (to d)"

text \<open>The weight a kernel hands out: each entry's weight, once for every target it has.\<close>

definition kernel_sum :: "Diffuser list \<Rightarrow> int" where
  "kernel_sum k = (\<Sum>d \<leftarrow> kernel_entries k. weight d * int (length (targets d)))"

section \<open>Nearest-colour search (chunky.cpp, lines 290 to 313)\<close>

text \<open>
  \<open>int\<close> is taken to be 32 bits wide. The arithmetic of \<open>NearestColor\<close> is modelled on
  unbounded integers: for channels between 0 and 255 (all that its two callers pass) the
  distance stays below \<open>INT_MAX\<close>, which \<open>NearestColor_dist_range\<close> proves below.
\<close>

definition INT_MAX :: int where
  "INT_MAX = 2147483647"

text \<open>Division of C++ on \<open>int\<close>: the quotient is truncated towards zero.\<close>

definition cdiv :: "int \<Rightarrow> int \<Rightarrow> int" where
  "cdiv a b = sgn a * sgn b * (\<bar>a\<bar> div \<bar>b\<bar>)"

text \<open>The body of the loop up to \<open>dist\<close> (lines 297 to 302), for the palette entry \<open>p\<close>.\<close>

definition NearestColor_dist :: "ColorRegister \<Rightarrow> int \<Rightarrow> int \<Rightarrow> int \<Rightarrow> int" where
  "NearestColor_dist p r g b =
    (let rmean = cdiv (r + uint (red p)) 2;
         x = r - uint (red p);
         y = g - uint (green p);
         z = b - uint (blue p)
     in (512 + rmean) * x * x + 1024 * y * y + (767 - rmean) * z * z)"

text \<open>
  The \<open>for\<close> loop, with its variables \<open>color\<close>, \<open>bestdist\<close> and \<open>bestcolor\<close> as arguments.
  \<open>pal\<close> is a bare pointer in the source; both callers pass the whole palette with
  \<open>first = 0\<close> and \<open>num = pal.size()\<close>, so every read \<open>pal[color]\<close> is inside it.
\<close>

function NearestColor_loop ::
  "ColorRegister list \<Rightarrow> int \<Rightarrow> int \<Rightarrow> int \<Rightarrow> int \<Rightarrow> int \<Rightarrow> int \<Rightarrow> int \<Rightarrow> int" where
  "NearestColor_loop pal r g b num color bestdist bestcolor =
    (if color < num then
       (let dist = NearestColor_dist (pal ! nat color) r g b in
        if dist < bestdist then
          (if dist = 0 then color
           else NearestColor_loop pal r g b num (color + 1) dist color)
        else NearestColor_loop pal r g b num (color + 1) bestdist bestcolor)
     else bestcolor)"
  by pat_completeness auto
termination
  by (relation "measure (\<lambda>(pal, r, g, b, num, color, bestdist, bestcolor). nat (num - color))") auto

definition NearestColor :: "ColorRegister list \<Rightarrow> int \<Rightarrow> int \<Rightarrow> int \<Rightarrow> int \<Rightarrow> int \<Rightarrow> int" where
  "NearestColor pal r g b first num = NearestColor_loop pal r g b num first INT_MAX first"

section \<open>Planar bitmaps (planar.cpp)\<close>

text \<open>
  Memory is a list of bytes and a pointer is an index into it. \<open>memset\<close> and \<open>memcpy\<close>
  are the C library's; \<open>memcpy\<close> reads its source before the block is written, which is
  what the library does when the two blocks are disjoint or the same.
\<close>

definition memset :: "uint8_t list \<Rightarrow> nat \<Rightarrow> uint8_t \<Rightarrow> nat \<Rightarrow> uint8_t list" where
  "memset mem p v n = map (\<lambda>i. if p \<le> i \<and> i < p + n then v else mem ! i) [0..<length mem]"

definition memcpy :: "'a list \<Rightarrow> nat \<Rightarrow> nat \<Rightarrow> nat \<Rightarrow> 'a list" where
  "memcpy mem dst src n =
    map (\<lambda>i. if dst \<le> i \<and> i < dst + n then mem ! (src + (i - dst)) else mem ! i) [0..<length mem]"

text \<open>
  The fields of \<open>PlanarBitmap\<close> that the pixel operations use. \<open>PlaneData\<close> is the one
  buffer that holds every plane; \<open>Planes\<close> is the table of 32 plane pointers, an offset
  into \<open>PlaneData\<close> or \<open>NULL\<close>. The palette and the animation fields are carried along
  by the source and read by none of the operations here.
\<close>

record PlanarBitmap =
  Width :: nat
  Height :: nat
  Pitch :: nat
  NumPlanes :: nat
  Planes :: "nat option list"
  PlaneData :: "uint8_t list"

text \<open>The constructor (lines 24 to 49); a failed \<open>assert\<close> is \<open>None\<close>.\<close>

definition PlanarBitmap_new :: "nat \<Rightarrow> nat \<Rightarrow> nat \<Rightarrow> PlanarBitmap option" where
  "PlanarBitmap_new w h nPlanes =
    (if nPlanes < 32 then
       (let pitch = ((w + 15) div 16) * 2;
            realplanes = max nPlanes 8
        in Some \<lparr>Width = w, Height = h, Pitch = pitch, NumPlanes = nPlanes,
                 Planes = map (\<lambda>i. if i < nPlanes then Some (pitch * h * i) else None) [0..<32],
                 PlaneData = replicate (pitch * h * realplanes) 0\<rparr>)
     else None)"

text \<open>\<open>FillBitplane\<close> (lines 88 to 92): \<open>-(uint8_t)set\<close> is \<open>0xFF\<close> or \<open>0\<close> as a byte.\<close>

definition FillBitplane :: "PlanarBitmap \<Rightarrow> nat \<Rightarrow> bool \<Rightarrow> PlanarBitmap option" where
  "FillBitplane p plane setv =
    (if plane < NumPlanes p then
       (case Planes p ! plane of
          None \<Rightarrow> None
        | Some pl \<Rightarrow>
            Some (p\<lparr>PlaneData := memset (PlaneData p) pl (- of_bool setv) (Pitch p * Height p)\<rparr>))
     else None)"

text \<open>
  Modelled from the spec: \<open>rotate8x8(src, srcstep, dst, dststep)\<close> is called by
  \<open>ToChunky\<close> and defined in a file that is not among the sources. The spec describes it
  as a byte transpose that handles 8 horizontally adjacent pixels at once and is
  "equivalent to, but faster than, the bit-serial method": it reads the 8 bytes
  \<open>src[i * srcstep]\<close>, one of each plane, and writes the 8 pixels \<open>dst[k * dststep]\<close>,
  where bit \<open>i\<close> of pixel \<open>k\<close> is bit \<open>7 - k\<close> of the byte of plane \<open>i\<close>.
\<close>

definition rotate8x8_pixel :: "uint8_t list \<Rightarrow> nat \<Rightarrow> nat \<Rightarrow> nat \<Rightarrow> uint8_t" where
  "rotate8x8_pixel mem src srcstep k =
    horner_sum of_bool 2 (map (\<lambda>i. bit (mem ! (src + i * srcstep)) (7 - k)) [0..<8])"

definition rotate8x8 ::
  "uint8_t list \<Rightarrow> nat \<Rightarrow> nat \<Rightarrow> uint8_t list \<Rightarrow> nat \<Rightarrow> nat \<Rightarrow> uint8_t list" where
  "rotate8x8 mem src srcstep dstmem dst dststep =
    fold (\<lambda>k m. m[dst + k * dststep := rotate8x8_pixel mem src srcstep k]) [0..<8] dstmem"

text \<open>
  The innermost loop of \<open>ToChunky\<close>, \<open>for (int i = NumPlanes - 1; i >= 0; --i)\<close>, the same
  in all of its branches but for the width of \<open>pixel\<close>: the first argument after the
  bitmap counts the planes still to read, so \<open>Suc i\<close> reads plane \<open>i\<close>. Reading through
  a \<open>NULL\<close> plane pointer is \<open>None\<close>.
\<close>

fun ToChunky_pixel ::
  "PlanarBitmap \<Rightarrow> nat \<Rightarrow> nat \<Rightarrow> nat \<Rightarrow> 'a::len word \<Rightarrow> 'a word option" where
  "ToChunky_pixel p 0 byte bitn pixel = Some pixel"
| "ToChunky_pixel p (Suc i) byte bitn pixel =
    (case Planes p ! i of
       None \<Rightarrow> None
     | Some plane \<Rightarrow>
         ToChunky_pixel p i byte bitn
           (push_bit 1 pixel OR (ucast (drop_bit bitn (PlaneData p ! (plane + byte))) AND 1)))"

text \<open>
  The branch for at most 8 planes (lines 126 to 150). First the loop that calls
  \<open>rotate8x8\<close> once for every 8 pixels; it returns \<open>x\<close> and \<open>out\<close> as it leaves them.
\<close>

function ToChunky_rotate ::
  "PlanarBitmap \<Rightarrow> nat \<Rightarrow> nat \<Rightarrow> nat \<Rightarrow> nat \<Rightarrow> uint8_t list \<Rightarrow> nat \<times> nat \<times> uint8_t list" where
  "ToChunky_rotate p srcstep inp x out dest =
    (if x < drop_bit 3 (Width p) then
       ToChunky_rotate p srcstep inp (x + 1) (out + 8)
         (rotate8x8 (PlaneData p) (inp + x) srcstep dest out 1)
     else (x, out, dest))"
  by pat_completeness auto
termination
  by (relation "measure (\<lambda>(p, srcstep, inp, x, out, dest). drop_bit 3 (Width p) - x)") auto

text \<open>The loop over the columns that are left ("Do overflow"), one bit at a time.\<close>

function ToChunky_overflow ::
  "PlanarBitmap \<Rightarrow> nat \<Rightarrow> nat \<Rightarrow> nat \<Rightarrow> uint8_t list \<Rightarrow> (nat \<times> uint8_t list) option" where
  "ToChunky_overflow p byte x out dest =
    (if x < Width p then
       (case ToChunky_pixel p (NumPlanes p) byte (7 - (x AND 7)) 0 of
          None \<Rightarrow> None
        | Some pixel \<Rightarrow> ToChunky_overflow p byte (x + 1) (out + 1) (dest[out := pixel]))
     else Some (out, dest))"
  by pat_completeness auto
termination
  by (relation "measure (\<lambda>(p, byte, x, out, dest). Width p - x)") auto

text \<open>The loop over the rows.\<close>

function ToChunky_rows ::
  "PlanarBitmap \<Rightarrow> nat \<Rightarrow> nat \<Rightarrow> nat \<Rightarrow> nat \<Rightarrow> uint8_t list \<Rightarrow> uint8_t list option" where
  "ToChunky_rows p destextrawidth y inp out dest =
    (if y < Height p then
       (case ToChunky_rotate p (Pitch p * Height p) inp 0 out dest of
          (x, out1, dest1) \<Rightarrow>
            (case ToChunky_overflow p (inp + x) (push_bit 3 x) out1 dest1 of
               None \<Rightarrow> None
             | Some (out2, dest2) \<Rightarrow>
                 ToChunky_rows p destextrawidth (y + 1) (inp + Pitch p) (out2 + destextrawidth) dest2))
     else Some dest)"
  by pat_completeness auto
termination
  by (relation "measure (\<lambda>(p, e, y, inp, out, dest). Height p - y)") auto

text \<open>
  The branches for 9 to 16 and for 17 to 32 planes (lines 155 to 171 and 175 to 191) are
  the bit-serial method on every column; they differ in the type of \<open>pixel\<close> only, which
  the argument \<open>pixel0\<close> (the \<open>0\<close> that \<open>pixel\<close> starts from) fixes here. A pixel of \<open>bpp\<close>
  bytes is stored through the cast pointer low byte first.
\<close>

definition store_pixel :: "uint8_t list \<Rightarrow> nat \<Rightarrow> nat \<Rightarrow> 'a::len word \<Rightarrow> uint8_t list" where
  "store_pixel dest out bpp pixel =
    fold (\<lambda>k m. m[out * bpp + k := ucast (drop_bit (8 * k) pixel)]) [0..<bpp] dest"

function ToChunky_serial_row ::
  "'a::len word \<Rightarrow> PlanarBitmap \<Rightarrow> nat \<Rightarrow> nat \<Rightarrow> nat \<Rightarrow> nat \<Rightarrow> uint8_t list
    \<Rightarrow> (nat \<times> uint8_t list) option" where
  "ToChunky_serial_row pixel0 p bpp inp x out dest =
    (if x < Width p then
       (case ToChunky_pixel p (NumPlanes p) (inp + drop_bit 3 x) (7 - (x AND 7)) pixel0 of
          None \<Rightarrow> None
        | Some pixel \<Rightarrow>
            ToChunky_serial_row pixel0 p bpp inp (x + 1) (out + 1) (store_pixel dest out bpp pixel))
     else Some (out, dest))"
  by pat_completeness auto
termination
  by (relation "measure (\<lambda>(pixel0, p, bpp, inp, x, out, dest). Width p - x)") auto

function ToChunky_serial ::
  "'a::len word \<Rightarrow> PlanarBitmap \<Rightarrow> nat \<Rightarrow> nat \<Rightarrow> nat \<Rightarrow> nat \<Rightarrow> nat \<Rightarrow> uint8_t list
    \<Rightarrow> uint8_t list option" where
  "ToChunky_serial pixel0 p bpp destextrawidth y inp out dest =
    (if y < Height p then
       (case ToChunky_serial_row pixel0 p bpp inp 0 out dest of
          None \<Rightarrow> None
        | Some (out1, dest1) \<Rightarrow>
            ToChunky_serial pixel0 p bpp destextrawidth (y + 1) (inp + Pitch p)
              (out1 + destextrawidth) dest1)
     else Some dest)"
  by pat_completeness auto
termination
  by (relation "measure (\<lambda>(pixel0, p, bpp, e, y, inp, out, dest). Height p - y)") auto

text \<open>
  \<open>ToChunky\<close> (lines 100 to 193). \<open>in\<close> and \<open>byte\<close> are \<open>uint32_t\<close> in the source and
  natural numbers here: they stay below the size of \<open>PlaneData\<close>.
\<close>

definition ToChunky :: "PlanarBitmap \<Rightarrow> uint8_t list \<Rightarrow> nat \<Rightarrow> uint8_t list option" where
  "ToChunky p dest destextrawidth =
    (if NumPlanes p \<le> 0 then Some dest
     else if NumPlanes p \<le> 8 then ToChunky_rows p destextrawidth 0 0 0 dest
     else if NumPlanes p \<le> 16 then ToChunky_serial (0 :: 16 word) p 2 destextrawidth 0 0 0 dest
     else ToChunky_serial (0 :: 32 word) p 4 destextrawidth 0 0 0 dest)"

section \<open>Chunky bitmaps (chunky.cpp)\<close>

text \<open>
  \<open>Pixels\<close> is the pixel buffer, a list of bytes. The dimensions are \<open>int\<close> in the source
  and natural numbers here: a count of pixels.
\<close>

record ChunkyBitmap =
  Width :: nat
  Height :: nat
  Pitch :: nat
  BytesPerPixel :: nat
  Pixels :: "uint8_t list"

text \<open>
  \<open>Alloc\<close> (lines 43 to 53) behind the constructor \<open>ChunkyBitmap(w, h, bpp)\<close>; a failed
  \<open>assert\<close> is \<open>None\<close>. \<open>new uint8_t[Pitch * Height]\<close> leaves the bytes of the new buffer
  indeterminate: they are whatever the store held. That content is the argument \<open>fresh\<close>,
  byte \<open>i\<close> of the buffer being \<open>fresh i\<close>; every function that allocates takes it, and
  what is proved of such a function is proved for every \<open>fresh\<close>.
\<close>

definition Alloc :: "nat \<Rightarrow> nat \<Rightarrow> nat \<Rightarrow> (nat \<Rightarrow> uint8_t) \<Rightarrow> ChunkyBitmap option" where
  "Alloc w h bpp fresh =
    (if w \<noteq> 0 \<and> h \<noteq> 0 \<and> (bpp = 1 \<or> bpp = 2 \<or> bpp = 4) then
       Some \<lparr>Width = w, Height = h, Pitch = w * bpp, BytesPerPixel = bpp,
             Pixels = map fresh [0 ..< w * bpp * h]\<rparr>
     else None)"

subsection \<open>Expand (lines 131 to 230)\<close>

text \<open>
  \<open>Expand1\<close>, \<open>Expand2\<close> and \<open>Expand4\<close> are one text but for the type of a pixel
  (\<open>uint8_t\<close>, \<open>uint16_t\<close>, \<open>uint32_t\<close>), which they read and write as a whole. They are one
  function here, on a buffer of pixel slots of any type; \<open>src\<close> and \<open>dest\<close> are indices
  into it, counted in pixels as the typed pointers of the source are. \<open>slots\<close> views the
  bytes of \<open>Pixels\<close> as slots of \<open>bpp\<close> bytes, as the casts in \<open>Expand\<close> do.

  A pointer is decremented with the subtraction of natural numbers, which stops at 0. Under
  the precondition of \<open>Expand\<close> no pointer that is used goes below the start of the buffer:
  only the last \<open>src -= Width\<close>, after the top row, would, and that value is never read.
\<close>

definition slots :: "nat \<Rightarrow> uint8_t list \<Rightarrow> uint8_t list list" where
  "slots bpp bytes = map (\<lambda>k. take bpp (drop (k * bpp) bytes)) [0..<length bytes div bpp]"

definition unslots :: "uint8_t list list \<Rightarrow> uint8_t list" where
  "unslots ss = concat ss"

text \<open>\<open>for (int xx = scalex; xx > 0; --xx) *--dest = src[sx];\<close> with \<open>s\<close> for \<open>src + sx\<close>.\<close>

fun Expand_pixel :: "nat \<Rightarrow> nat \<Rightarrow> nat \<Rightarrow> 'a list \<Rightarrow> nat \<times> 'a list" where
  "Expand_pixel 0 s dest mem = (dest, mem)"
| "Expand_pixel (Suc xx) s dest mem = Expand_pixel xx s (dest - 1) (mem[dest - 1 := mem ! s])"

text \<open>
  \<open>for (int sx = srcwidth - 1; sx >= 0; --sx)\<close>: the second argument counts the source
  pixels still to expand, so \<open>Suc sx\<close> expands the pixel \<open>src[sx]\<close>.
\<close>

fun Expand_horizontal :: "nat \<Rightarrow> nat \<Rightarrow> nat \<Rightarrow> nat \<Rightarrow> 'a list \<Rightarrow> nat \<times> 'a list" where
  "Expand_horizontal scalex 0 src dest mem = (dest, mem)"
| "Expand_horizontal scalex (Suc sx) src dest mem =
    (case Expand_pixel scalex (src + sx) dest mem of
       (dest1, mem1) \<Rightarrow> Expand_horizontal scalex sx src dest1 mem1)"

text \<open>
  \<open>for (; yy > 0; --yy, dest -= Width) memcpy(dest - Width, ysrc, Pitch);\<close> where \<open>n\<close> is
  \<open>Pitch\<close> counted in pixels.
\<close>

fun Expand_vertical :: "nat \<Rightarrow> nat \<Rightarrow> nat \<Rightarrow> nat \<Rightarrow> nat \<Rightarrow> 'a list \<Rightarrow> nat \<times> 'a list" where
  "Expand_vertical W n 0 ysrc dest mem = (dest, mem)"
| "Expand_vertical W n (Suc yy) ysrc dest mem =
    Expand_vertical W n yy ysrc (dest - W) (memcpy mem (dest - W) ysrc n)"

text \<open>The loop over the source rows, \<open>for (int sy = srcheight; sy > 0; --sy, src -= Width)\<close>.\<close>

fun Expand_rows ::
  "nat \<Rightarrow> nat \<Rightarrow> nat \<Rightarrow> nat \<Rightarrow> nat \<Rightarrow> nat \<Rightarrow> nat \<Rightarrow> nat \<Rightarrow> 'a list \<Rightarrow> 'a list" where
  "Expand_rows W n scalex scaley srcwidth 0 src dest mem = mem"
| "Expand_rows W n scalex scaley srcwidth (Suc sy) src dest mem =
    (case (if scalex \<noteq> 1 then
             (case Expand_horizontal scalex srcwidth src dest mem of
                (dest1, mem1) \<Rightarrow> (dest1, scaley - 1, dest1, mem1))
           else (src, scaley, dest, mem)) of
       (ysrc, yy, dest1, mem1) \<Rightarrow>
         (case Expand_vertical W n yy ysrc dest1 mem1 of
            (dest2, mem2) \<Rightarrow>
              Expand_rows W n scalex scaley srcwidth sy (src - W) dest2 mem2))"

text \<open>
  \<open>Expand\<close> itself. It has no \<open>assert\<close>; a scale of 0, which the constructor that calls it
  rules out, would divide by zero and is \<open>None\<close>. The \<open>switch\<close> has no default case.
\<close>

definition Expand :: "ChunkyBitmap \<Rightarrow> nat \<Rightarrow> nat \<Rightarrow> ChunkyBitmap option" where
  "Expand bm scalex scaley =
    (if scalex = 1 \<and> scaley = 1 then Some bm
     else if scalex = 0 \<or> scaley = 0 then None
     else
       (let srcwidth = Width bm div scalex;
            srcheight = Height bm div scaley;
            bpp = BytesPerPixel bm
        in if bpp = 1 \<or> bpp = 2 \<or> bpp = 4 then
             Some (bm\<lparr>Pixels :=
               unslots (Expand_rows (Width bm) (Pitch bm div bpp) scalex scaley srcwidth srcheight
                 ((srcheight - 1) * Pitch bm div bpp) (Height bm * Pitch bm div bpp)
                 (slots bpp (Pixels bm)))\<rparr>)
           else Some bm))"

subsection \<open>Hold-and-modify (lines 233 to 288)\<close>

text \<open>The body of the loop of \<open>HAM6toRGB\<close> up to the end of the \<open>switch\<close>: the new \<open>color\<close>.\<close>

definition HAM6_pixel :: "ColorRegister list \<Rightarrow> ColorRegister \<Rightarrow> uint8_t \<Rightarrow> ColorRegister" where
  "HAM6_pixel pal color s =
    (let intensity0 = s AND 0x0F;
         intensity = intensity0 OR push_bit 4 intensity0
     in if s AND 0xF0 = 0x00 then pal ! unat s
        else if s AND 0xF0 = 0x10 then color\<lparr>blue := intensity\<rparr>
        else if s AND 0xF0 = 0x20 then color\<lparr>red := intensity\<rparr>
        else if s AND 0xF0 = 0x30 then color\<lparr>green := intensity\<rparr>
        else color)"


text \<open>
  The loop \<open>for (int i = Width * Height; i > 0; --i, ++src, dest += 4)\<close>, the same in both
  functions but for the step, which is the argument \<open>pixel\<close>.
\<close>

fun HAM_loop ::
  "(ColorRegister \<Rightarrow> uint8_t \<Rightarrow> ColorRegister) \<Rightarrow> nat \<Rightarrow> nat \<Rightarrow> nat \<Rightarrow> ColorRegister
    \<Rightarrow> uint8_t list \<Rightarrow> uint8_t list \<Rightarrow> uint8_t list" where
  "HAM_loop pixel 0 src dest color pix out = out"
| "HAM_loop pixel (Suc i) src dest color pix out =
    (let color1 = pixel color (pix ! src)
     in HAM_loop pixel i (src + 1) (dest + 4) color1 pix
          (out[dest := red color1, dest + 1 := green color1, dest + 2 := blue color1,
               dest + 3 := 0xFF]))"

definition HAM6toRGB ::
  "ChunkyBitmap \<Rightarrow> ColorRegister list \<Rightarrow> (nat \<Rightarrow> uint8_t) \<Rightarrow> ChunkyBitmap option" where
  "HAM6toRGB bm pal fresh =
    (if 16 \<le> length pal \<and> BytesPerPixel bm = 1 then
       (case Alloc (Width bm) (Height bm) 4 fresh of
          None \<Rightarrow> None
        | Some out \<Rightarrow>
            Some (out\<lparr>Pixels :=
              HAM_loop (HAM6_pixel pal) (Width bm * Height bm) 0 0 (pal ! 0) (Pixels bm) (Pixels out)\<rparr>))
     else None)"


subsection \<open>Palette mapping (lines 378 to 471)\<close>

text \<open>
  \<open>RGB2P_BasicQuantize\<close>: the loop \<open>for (int i = Width * Height; i > 0; --i)\<close>. The
  \<open>int\<close> that \<open>NearestColor\<close> returns is stored into a byte of the output. The argument
  \<open>&pal[0]\<close> is the address of the entries, of which \<open>NearestColor\<close> reads those from
  \<open>first\<close> up to \<open>num\<close>: for an empty palette it reads none and returns \<open>first\<close>, which
  is 0.
\<close>

fun RGB2P_BasicQuantize_loop ::
  "ColorRegister list \<Rightarrow> nat \<Rightarrow> nat \<Rightarrow> nat \<Rightarrow> uint8_t list \<Rightarrow> uint8_t list \<Rightarrow> uint8_t list" where
  "RGB2P_BasicQuantize_loop pal 0 src dest pix out = out"
| "RGB2P_BasicQuantize_loop pal (Suc i) src dest pix out =
    RGB2P_BasicQuantize_loop pal i (src + 4) (dest + 1) pix
      (out[dest := word_of_int
         (NearestColor pal (uint (pix ! src)) (uint (pix ! (src + 1))) (uint (pix ! (src + 2)))
            0 (int (length pal)))])"

definition RGB2P_BasicQuantize ::
  "ChunkyBitmap \<Rightarrow> ChunkyBitmap \<Rightarrow> ColorRegister list \<Rightarrow> ChunkyBitmap option" where
  "RGB2P_BasicQuantize bm out pal =
    (if Width out = Width bm \<and> Height out = Height bm \<and> BytesPerPixel out = 1
        \<and> BytesPerPixel bm = 4 then
       Some (out\<lparr>Pixels :=
         RGB2P_BasicQuantize_loop pal (Width bm * Height bm) 0 0 (Pixels bm) (Pixels out)\<rparr>)
     else None)"

text \<open>
  Error diffusion. A cell of accumulated error is \<open>std::array<int, 3>\<close>, a row of error
  has \<open>Width\<close> cells, and \<open>error\<close> is the array of three rows. The products and sums of
  the source are \<open>int\<close>; they are modelled on unbounded integers.
\<close>

type_synonym errcell = "int \<times> int \<times> int"

fun add_error :: "errcell \<Rightarrow> errcell \<Rightarrow> errcell" where
  "add_error (e0, e1, e2) (rw, gw, bw) = (e0 + rw, e1 + gw, e2 + bw)"

text \<open>\<open>std::clamp(v, lo, hi)\<close>.\<close>

definition clamp :: "int \<Rightarrow> int \<Rightarrow> int \<Rightarrow> int" where
  "clamp v lo hi = (if v < lo then lo else if hi < v then hi else v)"

text \<open>
  The loop over the targets of one entry (lines 455 to 464), on the array \<open>to\<close> from
  index \<open>j\<close> on: it ends at the end of the array or at the first target whose \<open>x | y\<close> is
  zero. The row \<open>error[y]\<close> is read only for a column inside the row; a row index outside
  the three rows is \<open>None\<close>.
\<close>

fun diffuse_targets ::
  "nat \<Rightarrow> nat \<Rightarrow> errcell \<Rightarrow> (int \<times> int) list \<Rightarrow> errcell list list \<Rightarrow> errcell list list option" where
  "diffuse_targets W x w [] error = Some error"
| "diffuse_targets W x w (t # ts) error =
    (if (fst t OR snd t) = 0 then Some error
     else
       (let xx = int x + fst t in
        if 0 \<le> xx \<and> xx < int W then
          (if 0 \<le> snd t \<and> snd t < 3 then
             diffuse_targets W x w ts
               (error[nat (snd t) :=
                  (error ! nat (snd t))[nat xx := add_error (error ! nat (snd t) ! nat xx) w]])
           else None)
        else diffuse_targets W x w ts error))"

text \<open>
  The loop over the entries (lines 449 to 465), on the kernel from index \<open>i\<close> on: it ends
  at the first entry of weight zero. A kernel without one would be read past its end, which
  is \<open>None\<close>.
\<close>

fun diffuse_entries ::
  "nat \<Rightarrow> nat \<Rightarrow> errcell \<Rightarrow> Diffuser list \<Rightarrow> errcell list list \<Rightarrow> errcell list list option" where
  "diffuse_entries W x rgb [] error = None"
| "diffuse_entries W x rgb (d # ds) error =
    (if weight d = 0 then Some error
     else
       (case rgb of
          (r, g, b) \<Rightarrow>
            (case diffuse_targets W x (r * weight d, g * weight d, b * weight d) (to d) error of
               None \<Rightarrow> None
             | Some error1 \<Rightarrow> diffuse_entries W x rgb ds error1)))"

text \<open>
  The body of the loop over \<open>x\<close> (lines 438 to 465): the index that is written to
  \<open>dest[x]\<close> and the error after the pixel. \<open>pal[c]\<close> is read for the residual: outside
  the palette, which is the case of the empty palette (where \<open>c\<close> is 0), it is \<open>None\<close>.
\<close>

definition ErrorDiffusion_pixel ::
  "ColorRegister list \<Rightarrow> Diffuser list \<Rightarrow> nat \<Rightarrow> nat \<Rightarrow> uint8_t list \<Rightarrow> nat \<Rightarrow> errcell list list
    \<Rightarrow> (int \<times> errcell list list) option" where
  "ErrorDiffusion_pixel pal kern W x pix src error =
    (let r = clamp (uint (pix ! src) + cdiv (fst (error ! 0 ! x)) 65536) 0 255;
         g = clamp (uint (pix ! (src + 1)) + cdiv (fst (snd (error ! 0 ! x))) 65536) 0 255;
         b = clamp (uint (pix ! (src + 2)) + cdiv (snd (snd (error ! 0 ! x))) 65536) 0 255;
         c = NearestColor pal r g b 0 (int (length pal))
     in if 0 \<le> c \<and> c < int (length pal) then
          (case diffuse_entries W x
                  (r - uint (red (pal ! nat c)), g - uint (green (pal ! nat c)),
                   b - uint (blue (pal ! nat c))) kern error of
             None \<Rightarrow> None
           | Some error1 \<Rightarrow> Some (c, error1))
        else None)"

text \<open>The loop \<open>for (int x = 0; x < Width; ++x, src += 4)\<close> over one row.\<close>

function ErrorDiffusion_row ::
  "ColorRegister list \<Rightarrow> Diffuser list \<Rightarrow> nat \<Rightarrow> nat \<Rightarrow> uint8_t list \<Rightarrow> nat \<Rightarrow> nat \<Rightarrow> uint8_t list
    \<Rightarrow> errcell list list \<Rightarrow> (nat \<times> uint8_t list \<times> errcell list list) option" where
  "ErrorDiffusion_row pal kern W x pix src dest out error =
    (if x < W then
       (case ErrorDiffusion_pixel pal kern W x pix src error of
          None \<Rightarrow> None
        | Some (c, error1) \<Rightarrow>
            ErrorDiffusion_row pal kern W (x + 1) pix (src + 4) dest
              (out[dest + x := word_of_int c]) error1)
     else Some (src, out, error))"
  by pat_completeness auto
termination
  by (relation "measure (\<lambda>(pal, kern, W, x, pix, src, dest, out, error). W - x)") auto

text \<open>
  The loop \<open>for (int y = Height; y > 0; --y, dest += Width)\<close> with the two swaps and the
  fill that end its body: row 1 becomes row 0, row 2 becomes row 1, and row 2 is zeroed.
\<close>

fun ErrorDiffusion_rows ::
  "ColorRegister list \<Rightarrow> Diffuser list \<Rightarrow> nat \<Rightarrow> nat \<Rightarrow> uint8_t list \<Rightarrow> nat \<Rightarrow> nat \<Rightarrow> uint8_t list
    \<Rightarrow> errcell list list \<Rightarrow> uint8_t list option" where
  "ErrorDiffusion_rows pal kern W 0 pix src dest out error = Some out"
| "ErrorDiffusion_rows pal kern W (Suc y) pix src dest out error =
    (case ErrorDiffusion_row pal kern W 0 pix src dest out error of
       None \<Rightarrow> None
     | Some (src1, out1, error1) \<Rightarrow>
         ErrorDiffusion_rows pal kern W y pix src1 (dest + W) out1
           [error1 ! 1, error1 ! 2, replicate (length (error1 ! 0)) (0, 0, 0)])"

definition RGB2P_ErrorDiffusion ::
  "ChunkyBitmap \<Rightarrow> ChunkyBitmap \<Rightarrow> ColorRegister list \<Rightarrow> Diffuser list \<Rightarrow> ChunkyBitmap option" where
  "RGB2P_ErrorDiffusion bm out pal kern =
    (if Width out = Width bm \<and> Height out = Height bm \<and> BytesPerPixel out = 1
        \<and> BytesPerPixel bm = 4 then
       (case ErrorDiffusion_rows pal kern (Width bm) (Height bm) (Pixels bm) 0 0 (Pixels out)
               (replicate 3 (replicate (Width bm) (0, 0, 0))) of
          None \<Rightarrow> None
        | Some pixels \<Rightarrow> Some (out\<lparr>Pixels := pixels\<rparr>))
     else None)"

text \<open>
  \<open>RGBtoPalette\<close> (lines 378 to 391). \<open>out\<close> is constructed as \<open>ChunkyBitmap out(Width,
  Height)\<close>, with the default of the constructor for the bytes per pixel, which is 1: both
  \<open>RGB2P\<close> functions assert it of \<open>out\<close>. \<open>countof(ErrorDiffusionKernels)\<close> is the length
  of the table.
\<close>

definition RGBtoPalette ::
  "ChunkyBitmap \<Rightarrow> ColorRegister list \<Rightarrow> int \<Rightarrow> (nat \<Rightarrow> uint8_t) \<Rightarrow> ChunkyBitmap option" where
  "RGBtoPalette bm pal dithermode fresh =
    (case Alloc (Width bm) (Height bm) 1 fresh of
       None \<Rightarrow> None
     | Some out \<Rightarrow>
         (if dithermode \<le> 0 \<or> dithermode > int (length ErrorDiffusionKernels) then
            RGB2P_BasicQuantize bm out pal
          else RGB2P_ErrorDiffusion bm out pal (ErrorDiffusionKernels ! nat (dithermode - 1))))"

section \<open>Invariants\<close>

text \<open>
  What \<open>Alloc\<close> establishes of a chunky bitmap: dimensions that are not zero, one of the
  three pixel sizes, \<open>Pitch = Width * BytesPerPixel\<close> and a buffer of \<open>Pitch * Height\<close>
  bytes.
\<close>

definition ChunkyBitmap_ok :: "ChunkyBitmap \<Rightarrow> bool" where
  "ChunkyBitmap_ok bm \<longleftrightarrow>
    Width bm \<noteq> 0 \<and> Height bm \<noteq> 0
    \<and> (BytesPerPixel bm = 1 \<or> BytesPerPixel bm = 2 \<or> BytesPerPixel bm = 4)
    \<and> Pitch bm = Width bm * BytesPerPixel bm
    \<and> length (Pixels bm) = Pitch bm * Height bm"

text \<open>
  What the error-diffusion loop needs of a kernel: an entry of weight zero to end it, and
  targets whose row offset is 0, 1 or 2. \<open>kernel_ok\<close> holds of the eight kernels of the
  table (\<open>builtin_kernel_ok\<close> below).
\<close>

definition kernel_ok :: "Diffuser list \<Rightarrow> bool" where
  "kernel_ok k \<longleftrightarrow>
    list_ex (\<lambda>d. weight d = 0) k
    \<and> list_all (\<lambda>d. list_all (\<lambda>t. 0 \<le> snd t \<and> snd t < 3) (targets d)) (kernel_entries k)"

text \<open>The shape of \<open>error\<close>: three rows of \<open>W\<close> cells.\<close>

definition error_ok :: "nat \<Rightarrow> errcell list list \<Rightarrow> bool" where
  "error_ok W error \<longleftrightarrow> length error = 3 \<and> list_all (\<lambda>row. length row = W) error"

text \<open>
  The share of the residual of the pixel in column \<open>x\<close> that the cell in row \<open>row\<close> and
  column \<open>col\<close> of the error receives, as the spec words it: the weight of an entry, once
  for each of its targets \<open>(dx, dy)\<close> with \<open>dy = row\<close> and \<open>x + dx = col\<close>. A target
  whose column \<open>x + dx\<close> is not a column of the row is the target of no cell.
\<close>

definition target_hits :: "nat \<Rightarrow> nat \<Rightarrow> nat \<Rightarrow> (int \<times> int) list \<Rightarrow> nat" where
  "target_hits x row col ts =
    length (filter (\<lambda>t. snd t = int row \<and> int x + fst t = int col) ts)"

definition kernel_share :: "Diffuser list \<Rightarrow> nat \<Rightarrow> nat \<Rightarrow> nat \<Rightarrow> int" where
  "kernel_share k x row col =
    (\<Sum>d \<leftarrow> kernel_entries k. weight d * int (target_hits x row col (targets d)))"

fun scale_error :: "int \<Rightarrow> errcell \<Rightarrow> errcell" where
  "scale_error n (r, g, b) = (r * n, g * n, b * n)"

text \<open>
  One pixel of error diffusion as the spec words it, for the pixel whose bytes start at
  \<open>src\<close>, in column \<open>x\<close>, and the error \<open>error\<close> that the pixels before it have left.
  \<open>clamped\<close>: each channel is the source channel plus the accumulated error of the cell
  in row 0 and column \<open>x\<close> divided by 65536 (the division of C++), cut to 0..255.
  \<open>chosen\<close>: the nearest palette index of the clamped colour. \<open>residual\<close>: the clamped
  channels minus the channels of the chosen entry. \<open>diffused\<close>: the error \<open>e\<close> after the pixel
  keeps the shape and is, in every cell, the error before it plus the residual times the
  share of the cell.
\<close>

definition clamped :: "uint8_t list \<Rightarrow> nat \<Rightarrow> nat \<Rightarrow> errcell list list \<Rightarrow> errcell" where
  "clamped pix src x error =
    (clamp (uint (pix ! src) + cdiv (fst (error ! 0 ! x)) 65536) 0 255,
     clamp (uint (pix ! (src + 1)) + cdiv (fst (snd (error ! 0 ! x))) 65536) 0 255,
     clamp (uint (pix ! (src + 2)) + cdiv (snd (snd (error ! 0 ! x))) 65536) 0 255)"

definition chosen :: "ColorRegister list \<Rightarrow> uint8_t list \<Rightarrow> nat \<Rightarrow> nat \<Rightarrow> errcell list list \<Rightarrow> int" where
  "chosen pal pix src x error =
    (case clamped pix src x error of (r, g, b) \<Rightarrow> NearestColor pal r g b 0 (int (length pal)))"

definition residual ::
  "ColorRegister list \<Rightarrow> uint8_t list \<Rightarrow> nat \<Rightarrow> nat \<Rightarrow> errcell list list \<Rightarrow> errcell" where
  "residual pal pix src x error =
    (case clamped pix src x error of
       (r, g, b) \<Rightarrow>
         (r - uint (red (pal ! nat (chosen pal pix src x error))),
          g - uint (green (pal ! nat (chosen pal pix src x error))),
          b - uint (blue (pal ! nat (chosen pal pix src x error)))))"

definition diffused ::
  "ColorRegister list \<Rightarrow> Diffuser list \<Rightarrow> nat \<Rightarrow> uint8_t list \<Rightarrow> nat \<Rightarrow> nat
    \<Rightarrow> errcell list list \<Rightarrow> errcell list list \<Rightarrow> bool" where
  "diffused pal kern W pix src x error e \<longleftrightarrow>
    error_ok W e
    \<and> (\<forall>row < 3. \<forall>col < W.
          e ! row ! col = add_error (error ! row ! col)
            (scale_error (kernel_share kern x row col) (residual pal pix src x error)))"

text \<open>
  The running colour of hold-and-modify as the spec words it: one colour register, which
  starts from \<open>color0\<close> and is stepped once by every byte of the image in raster order.
  \<open>HAM_color pixel color0 pix k\<close> is the register after pixel \<open>k\<close>; the width of the image
  does not enter it.
\<close>

primrec HAM_color ::
  "(ColorRegister \<Rightarrow> uint8_t \<Rightarrow> ColorRegister) \<Rightarrow> ColorRegister \<Rightarrow> uint8_t list \<Rightarrow> nat
    \<Rightarrow> ColorRegister" where
  "HAM_color pixel color0 pix 0 = pixel color0 (pix ! 0)"
| "HAM_color pixel color0 pix (Suc k) = pixel (HAM_color pixel color0 pix k) (pix ! Suc k)"

text \<open>
  The pixel in column \<open>x\<close> of row \<open>y\<close> of a chunky bitmap: the \<open>BytesPerPixel\<close> bytes at
  \<open>Pixels + y * Pitch + x * BytesPerPixel\<close>.
\<close>

definition pixel_at :: "ChunkyBitmap \<Rightarrow> nat \<Rightarrow> nat \<Rightarrow> uint8_t list" where
  "pixel_at bm x y =
    take (BytesPerPixel bm) (drop (y * Pitch bm + x * BytesPerPixel bm) (Pixels bm))"

text \<open>
  What the constructor establishes of a planar bitmap and \<open>FillBitplane\<close> keeps: fewer
  than 32 planes, the pitch of a row, the table of plane pointers (plane \<open>i\<close> starts at
  \<open>Pitch * Height * i\<close>, the pointers from \<open>NumPlanes\<close> on are \<open>NULL\<close>), a buffer for
  \<open>max(NumPlanes, 8)\<close> planes, and zeros in the planes from \<open>NumPlanes\<close> on.
\<close>

definition PlanarBitmap_ok :: "PlanarBitmap \<Rightarrow> bool" where
  "PlanarBitmap_ok p \<longleftrightarrow>
    NumPlanes p < 32
    \<and> PlanarBitmap.Pitch p = ((PlanarBitmap.Width p + 15) div 16) * 2
    \<and> Planes p = map (\<lambda>i. if i < NumPlanes p
          then Some (PlanarBitmap.Pitch p * PlanarBitmap.Height p * i) else None) [0..<32]
    \<and> length (PlaneData p) = PlanarBitmap.Pitch p * PlanarBitmap.Height p * max (NumPlanes p) 8
    \<and> (\<forall>k < length (PlaneData p).
          PlanarBitmap.Pitch p * PlanarBitmap.Height p * NumPlanes p \<le> k \<longrightarrow> PlaneData p ! k = 0)"

text \<open>
  The chunky pixel of column \<open>x\<close> and row \<open>y\<close> as the spec words it: the value whose bit
  \<open>i\<close>, for every plane \<open>i\<close>, is bit \<open>7 - x mod 8\<close> of the byte of plane \<open>i\<close> at
  \<open>(x / 8, y)\<close>, plane 0 being the least significant bit.
\<close>

definition planar_pixel :: "PlanarBitmap \<Rightarrow> nat \<Rightarrow> nat \<Rightarrow> uint8_t" where
  "planar_pixel p x y =
    horner_sum of_bool 2
      (map (\<lambda>i. bit (PlaneData p ! (PlanarBitmap.Pitch p * PlanarBitmap.Height p * i
                + (y * PlanarBitmap.Pitch p + x div 8))) (7 - x mod 8))
         [0..<NumPlanes p])"

chapter \<open>Properties\<close>

section \<open>The weights of the kernels\<close>

text \<open>
  Claim C1, as amended. The claim says that in each of the eight built-in kernels the
  weights, each counted once for every target of its entry, sum to exactly 65536. That
  holds for Floyd-Steinberg, Burkes, Sierra-3, Sierra-2 and Sierra-Lite. The weights of
  Jarvis-Judice-Ninke and of Stucki are the fractions n/48 and n/42 cut off to 16 bits and
  sum to 65532 and to 65530; Atkinson hands 1/8 to each of six targets, 49152 in all.
  The sums of the eight kernels, in the order of the table, are these.
\<close>

theorem kernel_sum_table:
  "map kernel_sum ErrorDiffusionKernels =
    [65536, 65532, 65530, 65536, 49152, 65536, 65536, 65536]"
  by (simp add: ErrorDiffusionKernels_def kernel_sum_def kernel_entries_def targets_def
      FloydSteinberg_def JarvisJudiceNinke_def Stucki_def Burkes_def Atkinson_def Sierra3_def
      Sierra2_def SierraLite_def Diffuser_init_def countof_to_def)

text \<open>
  Claim C1 as it is stated fails at three kernels of the table: none of their sums is
  65536.
\<close>

theorem kernel_sum_counterexample:
  "kernel_sum JarvisJudiceNinke = 65532 \<and> kernel_sum Stucki = 65530
    \<and> kernel_sum Atkinson = 49152"
  by (simp add: kernel_sum_def kernel_entries_def targets_def JarvisJudiceNinke_def Stucki_def
      Atkinson_def Diffuser_init_def countof_to_def)

section \<open>Nearest-colour search\<close>

declare NearestColor_loop.simps [simp del]

text \<open>
  For channels between 0 and 255 the distance is not negative and stays below \<open>INT_MAX\<close>,
  so the \<open>int\<close> arithmetic of the source does not overflow and the first entry that is
  read always replaces the initial \<open>bestdist\<close>.
\<close>

lemma cdiv_nonneg: "0 \<le> a \<Longrightarrow> 0 < b \<Longrightarrow> cdiv a b = a div b"
  by (simp add: cdiv_def sgn_if)

lemma sq_le_255: "- 255 \<le> (x::int) \<Longrightarrow> x \<le> 255 \<Longrightarrow> x * x \<le> 65025"
proof -
  assume a: "- 255 \<le> x" "x \<le> 255"
  have "\<bar>x\<bar> \<le> 255" using a by simp
  then have "\<bar>x\<bar> * \<bar>x\<bar> \<le> 255 * 255" by (intro mult_mono) simp_all
  then show ?thesis by (simp add: abs_mult_self_eq)
qed

lemma weighted_sq_bounds:
  "0 \<le> (w::int) \<Longrightarrow> w \<le> 1024 \<Longrightarrow> - 255 \<le> x \<Longrightarrow> x \<le> 255 \<Longrightarrow> 0 \<le> w * x * x \<and> w * x * x \<le> 66585600"
proof -
  assume a: "0 \<le> w" "w \<le> 1024" "- 255 \<le> x" "x \<le> 255"
  have s: "0 \<le> x * x" "x * x \<le> 65025" using a sq_le_255 by simp_all
  have "w * (x * x) \<le> 1024 * 65025" using a s by (intro mult_mono) simp_all
  moreover have "0 \<le> w * (x * x)" using a s by simp
  ultimately show ?thesis by (simp add: mult.assoc)
qed

lemma NearestColor_dist_range:
  assumes "0 \<le> r" "r \<le> 255" "0 \<le> g" "g \<le> 255" "0 \<le> b" "b \<le> 255"
  shows "0 \<le> NearestColor_dist p r g b \<and> NearestColor_dist p r g b < INT_MAX"
proof -
  have u: "0 \<le> uint (red p)" "uint (red p) \<le> 255" "0 \<le> uint (green p)" "uint (green p) \<le> 255"
    "0 \<le> uint (blue p)" "uint (blue p) \<le> 255"
    using uint_lt2p [of "red p"] uint_lt2p [of "green p"] uint_lt2p [of "blue p"] by simp_all
  define rmean where "rmean = cdiv (r + uint (red p)) 2"
  have rm: "0 \<le> rmean" "rmean \<le> 255"
    using assms u by (simp_all add: rmean_def cdiv_nonneg)
  have d: "- 255 \<le> r - uint (red p)" "r - uint (red p) \<le> 255"
    "- 255 \<le> g - uint (green p)" "g - uint (green p) \<le> 255"
    "- 255 \<le> b - uint (blue p)" "b - uint (blue p) \<le> 255"
    using assms u by linarith+
  have w: "0 \<le> 512 + rmean" "512 + rmean \<le> 1024" "0 \<le> 767 - rmean" "767 - rmean \<le> 1024"
    using rm by linarith+
  have 1: "0 \<le> (512 + rmean) * (r - uint (red p)) * (r - uint (red p)) \<and>
      (512 + rmean) * (r - uint (red p)) * (r - uint (red p)) \<le> 66585600"
    using w d by (intro weighted_sq_bounds)
  have 2: "0 \<le> 1024 * (g - uint (green p)) * (g - uint (green p)) \<and>
      1024 * (g - uint (green p)) * (g - uint (green p)) \<le> 66585600"
    using d by (intro weighted_sq_bounds) simp_all
  have 3: "0 \<le> (767 - rmean) * (b - uint (blue p)) * (b - uint (blue p)) \<and>
      (767 - rmean) * (b - uint (blue p)) * (b - uint (blue p)) \<le> 66585600"
    using w d by (intro weighted_sq_bounds)
  show ?thesis
    using 1 2 3 by (simp add: NearestColor_dist_def Let_def rmean_def [symmetric] INT_MAX_def)
qed

text \<open>The loop returns \<open>bestcolor\<close> as it was passed or an index it has scanned.\<close>

lemma NearestColor_loop_range:
  "NearestColor_loop pal r g b num color bestdist bestcolor = bestcolor \<or>
   (color \<le> NearestColor_loop pal r g b num color bestdist bestcolor \<and>
    NearestColor_loop pal r g b num color bestdist bestcolor < num)"
proof (induction pal r g b num color bestdist bestcolor rule: NearestColor_loop.induct)
  case (1 pal r g b num color bestdist bestcolor)
  show ?case
    using "1.IH" by (subst (1 2 3) NearestColor_loop.simps) (auto simp: Let_def)
qed

text \<open>
  The invariant of the loop: either no entry from \<open>color\<close> on is closer than \<open>bestdist\<close>
  and \<open>bestcolor\<close> is kept, or the result is the first among the closest of them.
\<close>

lemma NearestColor_loop_min:
  assumes "\<forall>c. color \<le> c \<and> c < num \<longrightarrow> 0 \<le> NearestColor_dist (pal ! nat c) r g b"
  shows "(NearestColor_loop pal r g b num color bestdist bestcolor = bestcolor \<and>
          (\<forall>c. color \<le> c \<and> c < num \<longrightarrow> bestdist \<le> NearestColor_dist (pal ! nat c) r g b)) \<or>
         (color \<le> NearestColor_loop pal r g b num color bestdist bestcolor \<and>
          NearestColor_loop pal r g b num color bestdist bestcolor < num \<and>
          NearestColor_dist (pal ! nat (NearestColor_loop pal r g b num color bestdist bestcolor)) r g b < bestdist \<and>
          (\<forall>c. color \<le> c \<and> c < num \<longrightarrow>
             NearestColor_dist (pal ! nat (NearestColor_loop pal r g b num color bestdist bestcolor)) r g b
               \<le> NearestColor_dist (pal ! nat c) r g b) \<and>
          (\<forall>c. color \<le> c \<and> c < NearestColor_loop pal r g b num color bestdist bestcolor \<longrightarrow>
             NearestColor_dist (pal ! nat (NearestColor_loop pal r g b num color bestdist bestcolor)) r g b
               < NearestColor_dist (pal ! nat c) r g b))"
  using assms
proof (induction pal r g b num color bestdist bestcolor rule: NearestColor_loop.induct)
  case (1 pal r g b num color bestdist bestcolor)
  let ?D = "\<lambda>c. NearestColor_dist (pal ! nat c) r g b"
  let ?res = "NearestColor_loop pal r g b num color bestdist bestcolor"
  have nonneg: "\<forall>c. color + 1 \<le> c \<and> c < num \<longrightarrow> 0 \<le> ?D c"
    using "1.prems" by auto
  have step: "\<And>c. color \<le> c \<Longrightarrow> c = color \<or> color + 1 \<le> c" by arith
  show ?case
  proof (cases "color < num")
    case False
    then show ?thesis by (subst (1) NearestColor_loop.simps) auto
  next
    case lt: True
    show ?thesis
    proof (cases "?D color < bestdist")
      case better: True
      show ?thesis
      proof (cases "?D color = 0")
        case True
        then have res: "?res = color"
          using lt better by (subst NearestColor_loop.simps) (simp add: Let_def)
        show ?thesis
          unfolding res using lt better True "1.prems" by auto
      next
        case False
        have res: "?res = NearestColor_loop pal r g b num (color + 1) (?D color) color"
          using lt better False by (subst NearestColor_loop.simps) (simp add: Let_def)
        from "1.IH"(1) [OF lt refl better False nonneg]
        show ?thesis
          unfolding res using lt better
          by (elim disjE conjE) (rule disjI2, (auto dest: step)[1])+
      qed
    next
      case False
      have res: "?res = NearestColor_loop pal r g b num (color + 1) bestdist bestcolor"
        using lt False by (subst NearestColor_loop.simps) (simp add: Let_def)
      from "1.IH"(2) [OF lt refl False nonneg]
      show ?thesis
        unfolding res using lt False
        apply (elim disjE conjE)
         apply (rule disjI1)
         apply (auto dest: step)[1]
        apply (rule disjI2)
        apply (auto dest: step)[1]
        done
    qed
  qed
qed


text \<open>An entry at distance 0 ends the scan: nothing after it is read.\<close>

lemma NearestColor_loop_zero:
  assumes "color \<le> c0" "c0 < num" "NearestColor_dist (pal ! nat c0) r g b = 0"
    "\<forall>c. color \<le> c \<and> c < c0 \<longrightarrow> 0 < NearestColor_dist (pal ! nat c) r g b"
    "0 < bestdist"
  shows "NearestColor_loop pal r g b num color bestdist bestcolor = c0"
  using assms
proof (induction pal r g b num color bestdist bestcolor rule: NearestColor_loop.induct)
  case (1 pal r g b num color bestdist bestcolor)
  show ?case
  proof (cases "color = c0")
    case True
    then show ?thesis
      using "1.prems" by (subst NearestColor_loop.simps) (simp add: Let_def)
  next
    case False
    then have lt: "color < c0" "color < num" "color + 1 \<le> c0"
      using "1.prems" by simp_all
    have pos: "0 < NearestColor_dist (pal ! nat color) r g b"
      using "1.prems"(4) lt by simp
    have rest: "\<forall>c. color + 1 \<le> c \<and> c < c0 \<longrightarrow> 0 < NearestColor_dist (pal ! nat c) r g b"
      using "1.prems"(4) by simp
    show ?thesis
    proof (cases "NearestColor_dist (pal ! nat color) r g b < bestdist")
      case True
      have ne: "NearestColor_dist (pal ! nat color) r g b \<noteq> 0" using pos by simp
      from "1.IH"(1) [OF lt(2) refl True ne lt(3) "1.prems"(2) "1.prems"(3) rest pos]
      show ?thesis
        using lt True ne by (subst NearestColor_loop.simps) (simp add: Let_def)
    next
      case False
      from "1.IH"(2) [OF lt(2) refl False lt(3) "1.prems"(2) "1.prems"(3) rest "1.prems"(5)]
      show ?thesis
        using lt False by (subst NearestColor_loop.simps) (simp add: Let_def)
    qed
  qed
qed

text \<open>
  Claim C3. For a palette range \<open>[first, num)\<close> that is not empty and lies inside the
  palette, and a colour with channels between 0 and 255, \<open>NearestColor\<close> returns an index
  of the range whose distance is the least of the range; every index of the range below it
  is strictly farther, so among several closest entries the lowest is returned; and when
  the distance of the result is 0 the scan has stopped there: the result is the same
  whatever follows that entry in the palette and however far the range extends. The
  distance is \<open>(512 + rmean) * dr\<^sup>2 + 1024 * dg\<^sup>2 + (767 - rmean) * db\<^sup>2\<close> with
  \<open>rmean = (r + red) / 2\<close>.
\<close>

theorem NearestColor_lowest_minimum:
  assumes "0 \<le> first" "first < num" "num \<le> int (length pal)"
    and "0 \<le> r" "r \<le> 255" "0 \<le> g" "g \<le> 255" "0 \<le> b" "b \<le> 255"
  shows "first \<le> NearestColor pal r g b first num \<and> NearestColor pal r g b first num < num \<and>
    (\<forall>i. first \<le> i \<and> i < num \<longrightarrow>
       NearestColor_dist (pal ! nat (NearestColor pal r g b first num)) r g b
         \<le> NearestColor_dist (pal ! nat i) r g b) \<and>
    (\<forall>i. first \<le> i \<and> i < NearestColor pal r g b first num \<longrightarrow>
       NearestColor_dist (pal ! nat (NearestColor pal r g b first num)) r g b
         < NearestColor_dist (pal ! nat i) r g b) \<and>
    (NearestColor_dist (pal ! nat (NearestColor pal r g b first num)) r g b = 0 \<longrightarrow>
       (\<forall>rest num2. NearestColor pal r g b first num < num2 \<longrightarrow>
          NearestColor (take (nat (NearestColor pal r g b first num) + 1) pal @ rest) r g b first num2
            = NearestColor pal r g b first num)) \<and>
    (\<forall>p. NearestColor_dist p r g b =
       (512 + (r + uint (red p)) div 2) * (r - uint (red p))\<^sup>2
       + 1024 * (g - uint (green p))\<^sup>2
       + (767 - (r + uint (red p)) div 2) * (b - uint (blue p))\<^sup>2)"
proof -
  let ?D = "\<lambda>i. NearestColor_dist (pal ! nat i) r g b"
  let ?c = "NearestColor pal r g b first num"
  have range: "\<And>p. 0 \<le> NearestColor_dist p r g b \<and> NearestColor_dist p r g b < INT_MAX"
    using assms(4-9) by (rule NearestColor_dist_range)
  have nonneg: "\<forall>c. first \<le> c \<and> c < num \<longrightarrow> 0 \<le> ?D c"
    using range by simp
  have "?D first < INT_MAX" using range by simp
  then have notkept: "\<not> (\<forall>c. first \<le> c \<and> c < num \<longrightarrow> INT_MAX \<le> ?D c)"
    using assms(2) by (auto intro: exI [of _ first])
  from NearestColor_loop_min [OF nonneg, of INT_MAX first] notkept
  have main: "first \<le> ?c" "?c < num" "\<forall>i. first \<le> i \<and> i < num \<longrightarrow> ?D ?c \<le> ?D i"
    "\<forall>i. first \<le> i \<and> i < ?c \<longrightarrow> ?D ?c < ?D i"
    unfolding NearestColor_def by blast+
  have short: "NearestColor (take (nat ?c + 1) pal @ rest) r g b first num2 = ?c"
    if z: "?D ?c = 0" and n2: "?c < num2" for rest num2
  proof -
    let ?pal2 = "take (nat ?c + 1) pal @ rest"
    have len: "nat ?c < length pal" using main(1,2) assms(1,3) by linarith
    have same: "?pal2 ! nat i = pal ! nat i" if "first \<le> i" "i \<le> ?c" for i
    proof -
      have "nat i < length (take (nat ?c + 1) pal)" using that len assms(1) by simp
      then show ?thesis using that by (simp add: nth_append)
    qed
    have z2: "NearestColor_dist (?pal2 ! nat ?c) r g b = 0"
      using same [of ?c] main(1) z by simp
    have pos: "\<forall>i. first \<le> i \<and> i < ?c \<longrightarrow> 0 < NearestColor_dist (?pal2 ! nat i) r g b"
    proof (intro allI impI)
      fix i assume i: "first \<le> i \<and> i < ?c"
      then have "?D ?c < ?D i" using main(4) by blast
      then show "0 < NearestColor_dist (?pal2 ! nat i) r g b"
        using same [of i] i z by simp
    qed
    show ?thesis
      unfolding NearestColor_def [of ?pal2]
      by (rule NearestColor_loop_zero [OF main(1) n2 z2 pos]) (simp add: INT_MAX_def)
  qed
  have formula: "NearestColor_dist p r g b =
       (512 + (r + uint (red p)) div 2) * (r - uint (red p))\<^sup>2
       + 1024 * (g - uint (green p))\<^sup>2
       + (767 - (r + uint (red p)) div 2) * (b - uint (blue p))\<^sup>2" for p
    using assms(4)
    by (simp add: NearestColor_dist_def Let_def cdiv_nonneg power2_eq_square mult.assoc)
  show ?thesis using main short formula by blast
qed

text \<open>
  Witness for C3: white, then two entries equal to the colour. The second entry is
  returned, at distance 0, also when the third entry is changed and the range made longer.
\<close>

theorem NearestColor_lowest_minimum_witness:
  "NearestColor
     [\<lparr>red = 255, green = 255, blue = 255\<rparr>, \<lparr>red = 10, green = 10, blue = 10\<rparr>,
      \<lparr>red = 10, green = 10, blue = 10\<rparr>] 10 10 10 0 3 = 1
   \<and> NearestColor
     [\<lparr>red = 255, green = 255, blue = 255\<rparr>, \<lparr>red = 10, green = 10, blue = 10\<rparr>,
      \<lparr>red = 7, green = 7, blue = 7\<rparr>] 10 10 10 0 9 = 1"
  using NearestColor_lowest_minimum [of 0 3
      "[\<lparr>red = 255, green = 255, blue = 255\<rparr>, \<lparr>red = 10, green = 10, blue = 10\<rparr>,
        \<lparr>red = 10, green = 10, blue = 10\<rparr>]" 10 10 10]
  by (simp add: NearestColor_def NearestColor_loop.simps NearestColor_dist_def cdiv_def INT_MAX_def)

section \<open>Mapping without dithering\<close>

lemma Alloc_ok: "Alloc w h bpp fresh = Some bm \<Longrightarrow> ChunkyBitmap_ok bm"
  by (auto simp: Alloc_def ChunkyBitmap_ok_def split: if_splits)

lemma Alloc_Some:
  "w \<noteq> 0 \<Longrightarrow> h \<noteq> 0 \<Longrightarrow> bpp = 1 \<or> bpp = 2 \<or> bpp = 4 \<Longrightarrow>
    Alloc w h bpp fresh = Some \<lparr>Width = w, Height = h, Pitch = w * bpp, BytesPerPixel = bpp,
      Pixels = map fresh [0 ..< w * bpp * h]\<rparr>"
  by (simp add: Alloc_def)

lemma NearestColor_range:
  "first < num \<Longrightarrow> first \<le> NearestColor pal r g b first num \<and> NearestColor pal r g b first num < num"
  using NearestColor_loop_range [of pal r g b num first INT_MAX first]
  by (auto simp: NearestColor_def)

text \<open>Over an empty range the loop of \<open>NearestColor\<close> has no turn: it returns \<open>first\<close>.\<close>

lemma NearestColor_empty_range: "num \<le> first \<Longrightarrow> NearestColor pal r g b first num = first"
  by (simp add: NearestColor_def NearestColor_loop.simps)

lemma NearestColor_byte:
  "length pal \<le> 256 \<Longrightarrow>
    0 \<le> NearestColor pal r g b 0 (int (length pal)) \<and> NearestColor pal r g b 0 (int (length pal)) < 256"
proof (cases "pal = []")
  case True
  then show ?thesis by (simp add: NearestColor_empty_range)
next
  case False
  then have "0 < int (length pal)" by simp
  then have "0 \<le> NearestColor pal r g b 0 (int (length pal))
      \<and> NearestColor pal r g b 0 (int (length pal)) < int (length pal)"
    by (rule NearestColor_range)
  moreover assume "length pal \<le> 256"
  ultimately show ?thesis by linarith
qed

text \<open>
  The loop of \<open>RGB2P_BasicQuantize\<close>, from any content of the output: it keeps the length of
  the output, leaves what is below \<open>dest\<close>, and writes the index of source pixel \<open>k\<close> at
  \<open>dest + k\<close>.
\<close>

lemma BasicQuantize_loop_length:
  "length (RGB2P_BasicQuantize_loop pal n src dest pix out) = length out"
  by (induction n arbitrary: src dest out) simp_all

lemma BasicQuantize_loop_before:
  "i < dest \<Longrightarrow> RGB2P_BasicQuantize_loop pal n src dest pix out ! i = out ! i"
  by (induction n arbitrary: src dest out) simp_all

lemma BasicQuantize_loop_nth:
  "dest + n \<le> length out \<Longrightarrow> k < n \<Longrightarrow>
    RGB2P_BasicQuantize_loop pal n src dest pix out ! (dest + k) = word_of_int
      (NearestColor pal (uint (pix ! (src + 4 * k))) (uint (pix ! (src + 4 * k + 1)))
         (uint (pix ! (src + 4 * k + 2))) 0 (int (length pal)))"
proof (induction n arbitrary: src dest out k)
  case 0
  then show ?case by simp
next
  case (Suc n)
  let ?out1 = "out[dest := word_of_int
      (NearestColor pal (uint (pix ! src)) (uint (pix ! (src + 1))) (uint (pix ! (src + 2)))
         0 (int (length pal)))]"
  show ?case
  proof (cases k)
    case 0
    have "RGB2P_BasicQuantize_loop pal n (src + 4) (dest + 1) pix ?out1 ! dest = ?out1 ! dest"
      by (rule BasicQuantize_loop_before) simp
    then show ?thesis using 0 Suc.prems(1) by simp
  next
    case (Suc k')
    have "RGB2P_BasicQuantize_loop pal n (src + 4) (dest + 1) pix ?out1 ! (dest + 1 + k')
      = word_of_int
          (NearestColor pal (uint (pix ! (src + 4 + 4 * k'))) (uint (pix ! (src + 4 + 4 * k' + 1)))
             (uint (pix ! (src + 4 + 4 * k' + 2))) 0 (int (length pal)))"
      using Suc.IH [where dest = "dest + 1" and out = ?out1 and k = k' and src = "src + 4"]
        Suc.prems Suc by simp
    then show ?thesis using Suc by (simp add: add.assoc add.commute add.left_commute)
  qed
qed

lemma uint_word_of_int_8: "0 \<le> c \<Longrightarrow> c < 256 \<Longrightarrow> uint (word_of_int c :: 8 word) = c"
  by (simp add: uint_word_of_int take_bit_int_eq_self)

text \<open>
  Claim C4, as amended. For a 4-byte/pixel bitmap, any palette, a \<open>dithermode\<close> that is 0,
  negative or greater than 8, and whatever the new buffer held, \<open>RGBtoPalette\<close> returns an
  image of the same dimensions with one byte per pixel, and the byte of pixel \<open>k\<close> is what
  \<open>NearestColor\<close> returns for the three channels of source pixel \<open>k\<close> over the whole
  palette, stored into a byte: nothing of any other pixel enters it. The byte is that index
  modulo 256, which is the index itself when the palette has at most 256 entries.
\<close>

theorem RGBtoPalette_no_dither:
  assumes "ChunkyBitmap_ok bm" "BytesPerPixel bm = 4"
    and "dithermode \<le> 0 \<or> 8 < dithermode"
  shows "\<exists>out. RGBtoPalette bm pal dithermode fresh = Some out
    \<and> Width out = Width bm \<and> Height out = Height bm \<and> BytesPerPixel out = 1
    \<and> length (Pixels out) = Width bm * Height bm
    \<and> (\<forall>k < Width bm * Height bm.
          Pixels out ! k = word_of_int
            (NearestColor pal (uint (Pixels bm ! (4 * k))) (uint (Pixels bm ! (4 * k + 1)))
               (uint (Pixels bm ! (4 * k + 2))) 0 (int (length pal)))
          \<and> uint (Pixels out ! k) =
               NearestColor pal (uint (Pixels bm ! (4 * k))) (uint (Pixels bm ! (4 * k + 1)))
                 (uint (Pixels bm ! (4 * k + 2))) 0 (int (length pal)) mod 256
          \<and> (length pal \<le> 256 \<longrightarrow>
               uint (Pixels out ! k) =
                 NearestColor pal (uint (Pixels bm ! (4 * k))) (uint (Pixels bm ! (4 * k + 1)))
                   (uint (Pixels bm ! (4 * k + 2))) 0 (int (length pal))))"
proof -
  let ?W = "Width bm" and ?H = "Height bm"
  let ?out0 = "\<lparr>Width = ?W, Height = ?H, Pitch = ?W * 1, BytesPerPixel = 1,
      Pixels = map fresh [0 ..< ?W * 1 * ?H]\<rparr>"
  let ?nc = "\<lambda>k. NearestColor pal (uint (Pixels bm ! (4 * k))) (uint (Pixels bm ! (4 * k + 1)))
               (uint (Pixels bm ! (4 * k + 2))) 0 (int (length pal))"
  define res where "res = RGB2P_BasicQuantize_loop pal (?W * ?H) 0 0 (Pixels bm) (Pixels ?out0)"
  have dims: "?W \<noteq> 0" "?H \<noteq> 0" using assms(1) by (simp_all add: ChunkyBitmap_ok_def)
  have alloc: "Alloc ?W ?H 1 fresh = Some ?out0" using dims by (simp add: Alloc_Some)
  have len: "length res = ?W * ?H"
    unfolding res_def by (simp add: BasicQuantize_loop_length)
  have nth: "res ! k = word_of_int (?nc k)" if "k < ?W * ?H" for k
    unfolding res_def
    using BasicQuantize_loop_nth [where dest = 0 and n = "?W * ?H" and out = "Pixels ?out0"
        and k = k and pal = pal and pix = "Pixels bm" and src = 0] that by simp
  have md: "uint (res ! k) = ?nc k mod 256" if "k < ?W * ?H" for k
    using nth [OF that] by (simp add: uint_word_of_int take_bit_eq_mod)
  have small: "uint (res ! k) = ?nc k" if "k < ?W * ?H" "length pal \<le> 256" for k
    using NearestColor_byte [OF that(2)] nth [OF that(1)] by (simp add: uint_word_of_int_8)
  have "RGBtoPalette bm pal dithermode fresh = Some (?out0\<lparr>Pixels := res\<rparr>)"
    using alloc assms(2,3)
    by (auto simp: RGBtoPalette_def RGB2P_BasicQuantize_def ErrorDiffusionKernels_def res_def)
  then show ?thesis using len nth md small by simp
qed

text \<open>
  Claim C4 as it is stated, for every palette, fails for a palette of 257 entries: 256
  times white, then black. For a black pixel \<open>NearestColor\<close> returns 256, and the byte of
  the image is 0, in a buffer that held \<open>0xCD\<close>.
\<close>

theorem RGBtoPalette_no_dither_counterexample:
  "RGBtoPalette
     \<lparr>Width = 1, Height = 1, Pitch = 4, BytesPerPixel = 4, Pixels = [0, 0, 0, 255]\<rparr>
     (replicate 256 \<lparr>red = 255, green = 255, blue = 255\<rparr> @ [\<lparr>red = 0, green = 0, blue = 0\<rparr>]) 0
     (\<lambda>a. 0xCD)
    = Some \<lparr>Width = 1, Height = 1, Pitch = 1, BytesPerPixel = 1, Pixels = [0]\<rparr>
   \<and> NearestColor
     (replicate 256 \<lparr>red = 255, green = 255, blue = 255\<rparr> @ [\<lparr>red = 0, green = 0, blue = 0\<rparr>])
     0 0 0 0 257 = 256"
proof -
  let ?pal = "replicate 256 \<lparr>red = 255, green = 255, blue = 255\<rparr> @ [\<lparr>red = 0, green = 0, blue = 0\<rparr>]"
  have z: "NearestColor_dist (?pal ! nat 256) 0 0 0 = 0"
    by (simp add: nth_append NearestColor_dist_def cdiv_def)
  have pos: "\<forall>c. 0 \<le> c \<and> c < 256 \<longrightarrow> 0 < NearestColor_dist (?pal ! nat c) 0 0 0"
    by (auto simp: nth_append NearestColor_dist_def cdiv_def)
  have nc: "NearestColor ?pal 0 0 0 0 257 = 256"
    unfolding NearestColor_def
    by (rule NearestColor_loop_zero [OF _ _ z pos]) (simp_all add: INT_MAX_def)
  show ?thesis
    using nc by (simp add: RGBtoPalette_def Alloc_def RGB2P_BasicQuantize_def ErrorDiffusionKernels_def)
qed

text \<open>
  Witness for C4: two pixels, a dark and a light one, against black and white, and the
  same two pixels against the empty palette; the buffer held \<open>0xCD\<close>.
\<close>

theorem RGBtoPalette_no_dither_witness:
  "RGBtoPalette
     \<lparr>Width = 2, Height = 1, Pitch = 8, BytesPerPixel = 4, Pixels = [10, 10, 10, 255, 250, 250, 250, 255]\<rparr>
     [\<lparr>red = 0, green = 0, blue = 0\<rparr>, \<lparr>red = 255, green = 255, blue = 255\<rparr>] 0 (\<lambda>a. 0xCD)
    = Some \<lparr>Width = 2, Height = 1, Pitch = 2, BytesPerPixel = 1, Pixels = [0, 1]\<rparr>
   \<and> NearestColor [\<lparr>red = 0, green = 0, blue = 0\<rparr>, \<lparr>red = 255, green = 255, blue = 255\<rparr>]
        10 10 10 0 2 = 0
   \<and> NearestColor [\<lparr>red = 0, green = 0, blue = 0\<rparr>, \<lparr>red = 255, green = 255, blue = 255\<rparr>]
        250 250 250 0 2 = 1
   \<and> RGBtoPalette
     \<lparr>Width = 2, Height = 1, Pitch = 8, BytesPerPixel = 4, Pixels = [10, 10, 10, 255, 250, 250, 250, 255]\<rparr>
     [] 0 (\<lambda>a. 0xCD)
    = Some \<lparr>Width = 2, Height = 1, Pitch = 2, BytesPerPixel = 1, Pixels = [0, 0]\<rparr>
   \<and> NearestColor [] 10 10 10 0 0 = 0"
proof -
  let ?bm = "\<lparr>Width = 2, Height = 1, Pitch = 8, BytesPerPixel = 4,
      Pixels = [10, 10, 10, 255, 250, 250, 250, 255]\<rparr>"
  let ?pal = "[\<lparr>red = 0, green = 0, blue = 0\<rparr>, \<lparr>red = 255, green = 255, blue = 255\<rparr>]"
  have ok: "ChunkyBitmap_ok ?bm" by (simp add: ChunkyBitmap_ok_def)
  have run: "RGBtoPalette ?bm ?pal 0 (\<lambda>a. 0xCD)
      = Some \<lparr>Width = 2, Height = 1, Pitch = 2, BytesPerPixel = 1, Pixels = [0, 1]\<rparr>"
    by code_simp
  have run0: "RGBtoPalette ?bm [] 0 (\<lambda>a. 0xCD)
      = Some \<lparr>Width = 2, Height = 1, Pitch = 2, BytesPerPixel = 1, Pixels = [0, 0]\<rparr>"
    by code_simp
  have nc: "NearestColor ?pal 10 10 10 0 2 = 0" "NearestColor ?pal 250 250 250 0 2 = 1"
    "NearestColor [] 10 10 10 0 0 = 0"
    by code_simp+
  from RGBtoPalette_no_dither [OF ok, of 0 ?pal "\<lambda>a. 0xCD"]
  have "\<exists>out. RGBtoPalette ?bm ?pal 0 (\<lambda>a. 0xCD) = Some out \<and> length (Pixels out) = 2" by auto
  with run run0 nc show ?thesis by simp
qed

section \<open>Error diffusion\<close>

text \<open>
  The two loops that walk the kernel. Both keep the shape of \<open>error\<close>; neither fails on
  a kernel that is \<open>kernel_ok\<close>; and what they add to a cell is the residual times the
  number of targets that hit the cell, summed over the entries with their weights.
\<close>

lemma add_error_scale:
  "add_error (add_error c w) (scale_error n w) = add_error c (scale_error (1 + n) w)"
  by (cases c; cases w) (simp add: algebra_simps)

lemma scale_error_0: "add_error c (scale_error 0 w) = c"
  by (cases c; cases w) simp

lemma error_ok_update:
  "error_ok W error \<Longrightarrow> error_ok W (error[i := (error ! i)[j := v]])"
  by (cases "i < length error") (auto simp: error_ok_def list_all_length nth_list_update)

lemma error_ok_nth: "error_ok W error \<Longrightarrow> row < 3 \<Longrightarrow> length (error ! row) = W"
  by (simp add: error_ok_def list_all_length)

lemma diffuse_targets_Some:
  "list_all (\<lambda>t. 0 \<le> snd t \<and> snd t < 3) (takeWhile (\<lambda>t. (fst t OR snd t) \<noteq> 0) ts) \<Longrightarrow>
    \<exists>e. diffuse_targets W x w ts error = Some e"
  by (induction ts arbitrary: error) (auto simp: Let_def split: if_splits)

lemma diffuse_targets_shape:
  "diffuse_targets W x w ts error = Some e \<Longrightarrow> error_ok W error \<Longrightarrow> error_ok W e"
proof (induction ts arbitrary: error)
  case Nil
  then show ?case by simp
next
  case (Cons t ts)
  then show ?case
    by (auto simp: Let_def error_ok_update split: if_splits)
qed

lemma diffuse_targets_cell:
  assumes "diffuse_targets W x w ts error = Some e" "error_ok W error" "row < 3" "col < W"
  shows "e ! row ! col = add_error (error ! row ! col)
    (scale_error (int (target_hits x row col (takeWhile (\<lambda>t. (fst t OR snd t) \<noteq> 0) ts))) w)"
  using assms
proof (induction ts arbitrary: error)
  case Nil
  then show ?case by (simp add: target_hits_def scale_error_0)
next
  case (Cons t ts)
  let ?nz = "\<lambda>t. (fst t OR snd t) \<noteq> 0"
  let ?hit = "snd t = int row \<and> int x + fst t = int col"
  show ?case
  proof (cases "(fst t OR snd t) = 0")
    case True
    then show ?thesis using Cons.prems by (simp add: target_hits_def scale_error_0)
  next
    case nz: False
    have hits: "target_hits x row col (takeWhile ?nz (t # ts))
        = (if ?hit then 1 else 0) + target_hits x row col (takeWhile ?nz ts)"
      using nz by (simp add: target_hits_def)
    show ?thesis
    proof (cases "0 \<le> int x + fst t \<and> int x + fst t < int W")
      case False
      then have nohit: "\<not> ?hit" using Cons.prems(4) by auto
      have "diffuse_targets W x w ts error = Some e"
        using Cons.prems(1) nz False by (simp add: Let_def)
      from Cons.IH [OF this Cons.prems(2,3,4)] show ?thesis
        using hits nohit by simp
    next
      case inb: True
      let ?y = "nat (snd t)" and ?xx = "nat (int x + fst t)"
      let ?error1 = "error[?y := (error ! ?y)[?xx := add_error (error ! ?y ! ?xx) w]]"
      have rowok: "0 \<le> snd t" "snd t < 3" and rec: "diffuse_targets W x w ts ?error1 = Some e"
        using Cons.prems(1) nz inb by (simp_all add: Let_def split: if_splits)
      have ok1: "error_ok W ?error1" using Cons.prems(2) by (rule error_ok_update)
      have y3: "?y < length error" using rowok Cons.prems(2) by (simp add: error_ok_def)
      have "?xx < W" using inb by linarith
      then have xxW: "?xx < length (error ! ?y)"
        using rowok error_ok_nth [OF Cons.prems(2), of ?y] by simp
      have hit_iff: "?hit \<longleftrightarrow> ?y = row \<and> ?xx = col"
        using rowok inb by auto
      have cell1: "?error1 ! row ! col
          = (if ?hit then add_error (error ! row ! col) w else error ! row ! col)"
        using y3 xxW hit_iff by (auto simp: nth_list_update)
      from Cons.IH [OF rec ok1 Cons.prems(3,4)] show ?thesis
        unfolding cell1 hits by (simp add: add_error_scale)
    qed
  qed
qed

lemma kernel_ok_Cons:
  "kernel_ok (d # ds) \<Longrightarrow> weight d \<noteq> 0 \<Longrightarrow>
    kernel_ok ds \<and> list_all (\<lambda>t. 0 \<le> snd t \<and> snd t < 3) (targets d)"
  by (simp add: kernel_ok_def kernel_entries_def)

lemma diffuse_entries_Some:
  "kernel_ok k \<Longrightarrow> \<exists>e. diffuse_entries W x rgb k error = Some e"
proof (induction k arbitrary: error)
  case Nil
  then show ?case by (simp add: kernel_ok_def)
next
  case (Cons d ds)
  show ?case
  proof (cases "weight d = 0")
    case True
    then show ?thesis by simp
  next
    case False
    obtain r g b where rgb: "rgb = (r, g, b)" by (cases rgb)
    from kernel_ok_Cons [OF Cons.prems False]
    have ok: "kernel_ok ds" and t: "list_all (\<lambda>t. 0 \<le> snd t \<and> snd t < 3) (targets d)" by simp_all
    obtain e1 where e1: "diffuse_targets W x (r * weight d, g * weight d, b * weight d) (to d) error = Some e1"
      using diffuse_targets_Some [OF t [unfolded targets_def]] by blast
    show ?thesis using Cons.IH [OF ok, of e1] e1 False rgb by simp
  qed
qed

lemma diffuse_entries_shape:
  "diffuse_entries W x rgb k error = Some e \<Longrightarrow> error_ok W error \<Longrightarrow> error_ok W e"
proof (induction k arbitrary: error)
  case Nil
  then show ?case by simp
next
  case (Cons d ds)
  then show ?case
    by (auto split: if_splits prod.splits option.splits dest: diffuse_targets_shape)
qed

lemma diffuse_entries_cell:
  assumes "diffuse_entries W x rgb k error = Some e" "error_ok W error" "row < 3" "col < W"
  shows "e ! row ! col = add_error (error ! row ! col) (scale_error (kernel_share k x row col) rgb)"
  using assms
proof (induction k arbitrary: error)
  case Nil
  then show ?case by simp
next
  case (Cons d ds)
  obtain r g b where rgb: "rgb = (r, g, b)" by (cases rgb)
  show ?case
  proof (cases "weight d = 0")
    case True
    then show ?thesis
      using Cons.prems(1) by (simp add: kernel_share_def kernel_entries_def scale_error_0)
  next
    case False
    let ?w = "(r * weight d, g * weight d, b * weight d)"
    obtain e1 where e1: "diffuse_targets W x ?w (to d) error = Some e1"
      and rec: "diffuse_entries W x rgb ds e1 = Some e"
      using Cons.prems(1) False rgb by (auto split: option.splits)
    have ok1: "error_ok W e1" using e1 Cons.prems(2) by (rule diffuse_targets_shape)
    have c1: "e1 ! row ! col = add_error (error ! row ! col)
        (scale_error (int (target_hits x row col (targets d))) ?w)"
      using diffuse_targets_cell [OF e1 Cons.prems(2,3,4)] by (simp add: targets_def)
    have share: "kernel_share (d # ds) x row col
        = weight d * int (target_hits x row col (targets d)) + kernel_share ds x row col"
      using False by (simp add: kernel_share_def kernel_entries_def)
    obtain a0 a1 a2 where cell: "error ! row ! col = (a0, a1, a2)" by (cases "error ! row ! col")
    show ?thesis
      using Cons.IH [OF rec ok1 Cons.prems(3,4)] c1 share rgb cell
      by (simp add: algebra_simps)
  qed
qed

text \<open>The eight kernels of the table end with an entry of weight zero and keep to three rows.\<close>

lemma builtin_kernel_ok: "list_all kernel_ok ErrorDiffusionKernels"
  by (simp add: ErrorDiffusionKernels_def kernel_ok_def kernel_entries_def targets_def
      FloydSteinberg_def JarvisJudiceNinke_def Stucki_def Burkes_def Atkinson_def Sierra3_def
      Sierra2_def SierraLite_def Diffuser_init_def countof_to_def)

lemma clamp_range: "lo \<le> hi \<Longrightarrow> lo \<le> clamp v lo hi \<and> clamp v lo hi \<le> hi"
  by (simp add: clamp_def)

text \<open>
  One turn of the loop over \<open>x\<close>, in column \<open>x\<close> of a row of \<open>W\<close> pixels, with a palette
  that is not empty and a kernel that is \<open>kernel_ok\<close>: the index written is \<open>chosen\<close>, it
  is an index of the palette, and the error after the pixel is \<open>diffused\<close> from the error
  before it.
\<close>

lemma ErrorDiffusion_pixel_step:
  assumes "pal \<noteq> []" "kernel_ok kern" "error_ok W error" "x < W"
  shows "\<exists>e. ErrorDiffusion_pixel pal kern W x pix src error
        = Some (chosen pal pix src x error, e)
    \<and> 0 \<le> chosen pal pix src x error \<and> chosen pal pix src x error < int (length pal)
    \<and> diffused pal kern W pix src x error e"
proof -
  define c where "c = chosen pal pix src x error"
  define res where "res = residual pal pix src x error"
  have "0 < int (length pal)" using assms(1) by simp
  then have c: "0 \<le> c \<and> c < int (length pal)"
    unfolding c_def chosen_def clamped_def by (simp add: NearestColor_range)
  obtain e where e: "diffuse_entries W x res kern error = Some e"
    using diffuse_entries_Some [OF assms(2)] by blast
  have shape: "error_ok W e" using e assms(3) by (rule diffuse_entries_shape)
  have cells: "\<forall>row < 3. \<forall>col < W.
      e ! row ! col = add_error (error ! row ! col) (scale_error (kernel_share kern x row col) res)"
    using diffuse_entries_cell [OF e assms(3)] by blast
  have "ErrorDiffusion_pixel pal kern W x pix src error = Some (c, e)"
    using c e
    unfolding ErrorDiffusion_pixel_def Let_def res_def residual_def c_def chosen_def clamped_def
    by simp
  then show ?thesis
    using c shape cells unfolding diffused_def c_def res_def by blast
qed

text \<open>The clamped channels are between 0 and 255.\<close>

lemma clamped_range:
  "clamped pix src x error = (r, g, b) \<Longrightarrow>
    0 \<le> r \<and> r \<le> 255 \<and> 0 \<le> g \<and> g \<le> 255 \<and> 0 \<le> b \<and> b \<le> 255"
  by (auto simp: clamped_def clamp_def)

section \<open>The course of a run of error diffusion\<close>

declare ErrorDiffusion_row.simps [simp del]

text \<open>
  \<open>RGB2P_ErrorDiffusion\<close> starts from three rows of \<open>Width\<close> zero cells, and the rotation
  of the rows after a row keeps that shape.
\<close>

lemma error_ok_initial: "error_ok W (replicate 3 (replicate W (0, 0, 0)))"
  by (simp add: error_ok_def list_all_length)

lemma error_ok_rotate:
  "error_ok W error \<Longrightarrow> error_ok W [error ! 1, error ! 2, replicate (length (error ! 0)) (0, 0, 0)]"
  by (auto simp: error_ok_def list_all_length less_Suc_eq numeral_2_eq_2)

text \<open>
  The loop over \<open>x\<close> from column \<open>x\<close> on, in a row whose source bytes start at \<open>src0\<close>
  and whose output bytes start at \<open>dest\<close>: it ends with \<open>src\<close> at the end of the row, and
  there is a course \<open>Ex\<close> of the error, from the error at column \<open>x\<close> to the error after
  the row, along which every pixel from \<open>x\<close> on is written as \<open>chosen\<close> and hands on the
  error \<open>diffused\<close>. The bytes of the output outside these columns are kept.
\<close>

lemma ErrorDiffusion_row_trace:
  assumes "pal \<noteq> []" "kernel_ok kern"
  shows "error_ok W error \<Longrightarrow> x \<le> W \<Longrightarrow> dest + W \<le> length out \<Longrightarrow>
    \<exists>res e Ex. ErrorDiffusion_row pal kern W x pix (src0 + 4 * x) dest out error
        = Some (src0 + 4 * W, res, e)
      \<and> length res = length out \<and> Ex x = error \<and> Ex W = e \<and> error_ok W e
      \<and> (\<forall>i. x \<le> i \<and> i < W \<longrightarrow>
            res ! (dest + i) = word_of_int (chosen pal pix (src0 + 4 * i) i (Ex i))
            \<and> diffused pal kern W pix (src0 + 4 * i) i (Ex i) (Ex (Suc i)))
      \<and> (\<forall>j. j < dest + x \<or> dest + W \<le> j \<longrightarrow> res ! j = out ! j)"
proof (induction "W - x" arbitrary: x out error)
  case 0
  then have "x = W" by simp
  then show ?case
    using "0.prems"(1)
    by (subst ErrorDiffusion_row.simps) (auto intro!: exI [of _ "\<lambda>i. error"])
next
  case (Suc n)
  then have xW: "x < W" by simp
  let ?src = "src0 + 4 * x"
  let ?c = "chosen pal pix ?src x error"
  obtain e1 where p: "ErrorDiffusion_pixel pal kern W x pix ?src error = Some (?c, e1)"
    and d: "diffused pal kern W pix ?src x error e1"
    using ErrorDiffusion_pixel_step [OF assms Suc.prems(1) xW] by blast
  have ok1: "error_ok W e1" using d by (simp add: diffused_def)
  let ?out1 = "out[dest + x := word_of_int ?c]"
  have n: "n = W - (x + 1)" using Suc.hyps(2) by simp
  have le: "x + 1 \<le> W" using xW by simp
  have len1: "dest + W \<le> length ?out1" using Suc.prems(3) by simp
  from Suc.hyps(1) [OF n ok1 le len1] obtain res e Ex where
    run: "ErrorDiffusion_row pal kern W (x + 1) pix (src0 + 4 * (x + 1)) dest ?out1 e1
        = Some (src0 + 4 * W, res, e)"
    and len: "length res = length ?out1" and Ex1: "Ex (x + 1) = e1" and ExW: "Ex W = e"
    and ok: "error_ok W e"
    and px: "\<forall>i. x + 1 \<le> i \<and> i < W \<longrightarrow>
            res ! (dest + i) = word_of_int (chosen pal pix (src0 + 4 * i) i (Ex i))
            \<and> diffused pal kern W pix (src0 + 4 * i) i (Ex i) (Ex (Suc i))"
    and same: "\<forall>j. j < dest + (x + 1) \<or> dest + W \<le> j \<longrightarrow> res ! j = ?out1 ! j"
    by blast
  let ?Ex = "Ex(x := error)"
  have run0: "ErrorDiffusion_row pal kern W x pix ?src dest out error = Some (src0 + 4 * W, res, e)"
    using xW p run by (subst ErrorDiffusion_row.simps) (simp add: algebra_simps)
  have at_x: "res ! (dest + x) = word_of_int ?c"
    using same xW Suc.prems(3) by simp
  have pix: "\<forall>i. x \<le> i \<and> i < W \<longrightarrow>
            res ! (dest + i) = word_of_int (chosen pal pix (src0 + 4 * i) i (?Ex i))
            \<and> diffused pal kern W pix (src0 + 4 * i) i (?Ex i) (?Ex (Suc i))"
  proof (intro allI impI)
    fix i assume i: "x \<le> i \<and> i < W"
    show "res ! (dest + i) = word_of_int (chosen pal pix (src0 + 4 * i) i (?Ex i))
            \<and> diffused pal kern W pix (src0 + 4 * i) i (?Ex i) (?Ex (Suc i))"
    proof (cases "i = x")
      case True
      then show ?thesis using at_x d Ex1 by simp
    next
      case False
      then have "x + 1 \<le> i \<and> i < W" using i by simp
      then show ?thesis using px False i by simp
    qed
  qed
  have same0: "\<forall>j. j < dest + x \<or> dest + W \<le> j \<longrightarrow> res ! j = out ! j"
    using same xW by auto
  have "length res = length out \<and> ?Ex x = error \<and> ?Ex W = e"
    using len ExW xW by simp
  with run0 ok pix same0 show ?case by blast
qed


text \<open>
  The loop over the rows, with \<open>n\<close> rows to go from row \<open>y0\<close>: \<open>E y\<close> is the course of row
  \<open>y\<close>, and the course of the next row starts from the rotated error.
\<close>

lemma ErrorDiffusion_rows_trace:
  assumes "pal \<noteq> []" "kernel_ok kern"
  shows "error_ok W error \<Longrightarrow> (y0 + n) * W \<le> length out \<Longrightarrow>
    \<exists>res E. ErrorDiffusion_rows pal kern W n pix (4 * (y0 * W)) (y0 * W) out error = Some res
      \<and> length res = length out \<and> E y0 0 = error
      \<and> (\<forall>y. y0 \<le> y \<and> y < y0 + n \<longrightarrow>
            (\<forall>x < W. res ! (y * W + x) = word_of_int (chosen pal pix (4 * (y * W + x)) x (E y x))
               \<and> diffused pal kern W pix (4 * (y * W + x)) x (E y x) (E y (Suc x)))
            \<and> E (Suc y) 0 = [E y W ! 1, E y W ! 2, replicate W (0, 0, 0)])
      \<and> (\<forall>j < y0 * W. res ! j = out ! j)"
proof (induction n arbitrary: y0 out error)
  case 0
  show ?case by (auto intro!: exI [of _ "\<lambda>y x. error"])
next
  case (Suc n)
  have fit: "y0 * W + W \<le> length out" using Suc.prems(2) by (simp add: algebra_simps)
  from ErrorDiffusion_row_trace [OF assms Suc.prems(1) _ fit, of 0 pix "4 * (y0 * W)"]
  obtain res1 e1 Ex where
    row: "ErrorDiffusion_row pal kern W 0 pix (4 * (y0 * W)) (y0 * W) out error
        = Some (4 * (y0 * W) + 4 * W, res1, e1)"
    and len1: "length res1 = length out" and Ex0: "Ex 0 = error" and ExW: "Ex W = e1"
    and ok1: "error_ok W e1"
    and px1: "\<forall>i. 0 \<le> i \<and> i < W \<longrightarrow>
            res1 ! (y0 * W + i) = word_of_int (chosen pal pix (4 * (y0 * W) + 4 * i) i (Ex i))
            \<and> diffused pal kern W pix (4 * (y0 * W) + 4 * i) i (Ex i) (Ex (Suc i))"
    and same1: "\<forall>j. j < y0 * W + 0 \<or> y0 * W + W \<le> j \<longrightarrow> res1 ! j = out ! j"
    by auto
  let ?e2 = "[e1 ! 1, e1 ! 2, replicate (length (e1 ! 0)) (0, 0, 0)]"
  have ok2: "error_ok W ?e2" using ok1 by (rule error_ok_rotate)
  have l0: "length (e1 ! 0) = W" using ok1 by (simp add: error_ok_nth)
  have fit2: "(Suc y0 + n) * W \<le> length res1" using Suc.prems(2) len1 by simp
  from Suc.IH [OF ok2 fit2] obtain res E where
    rows: "ErrorDiffusion_rows pal kern W n pix (4 * (Suc y0 * W)) (Suc y0 * W) res1 ?e2 = Some res"
    and len: "length res = length res1" and E0: "E (Suc y0) 0 = ?e2"
    and px: "\<forall>y. Suc y0 \<le> y \<and> y < Suc y0 + n \<longrightarrow>
            (\<forall>x < W. res ! (y * W + x) = word_of_int (chosen pal pix (4 * (y * W + x)) x (E y x))
               \<and> diffused pal kern W pix (4 * (y * W + x)) x (E y x) (E y (Suc x)))
            \<and> E (Suc y) 0 = [E y W ! 1, E y W ! 2, replicate W (0, 0, 0)]"
    and same: "\<forall>j < Suc y0 * W. res ! j = res1 ! j"
    by blast
  let ?E = "E(y0 := Ex)"
  have run: "ErrorDiffusion_rows pal kern W (Suc n) pix (4 * (y0 * W)) (y0 * W) out error = Some res"
    using row rows by (simp add: algebra_simps)
  have all: "\<forall>y. y0 \<le> y \<and> y < y0 + Suc n \<longrightarrow>
            (\<forall>x < W. res ! (y * W + x) = word_of_int (chosen pal pix (4 * (y * W + x)) x (?E y x))
               \<and> diffused pal kern W pix (4 * (y * W + x)) x (?E y x) (?E y (Suc x)))
            \<and> ?E (Suc y) 0 = [?E y W ! 1, ?E y W ! 2, replicate W (0, 0, 0)]"
  proof (intro allI impI)
    fix y assume y: "y0 \<le> y \<and> y < y0 + Suc n"
    show "(\<forall>x < W. res ! (y * W + x) = word_of_int (chosen pal pix (4 * (y * W + x)) x (?E y x))
               \<and> diffused pal kern W pix (4 * (y * W + x)) x (?E y x) (?E y (Suc x)))
            \<and> ?E (Suc y) 0 = [?E y W ! 1, ?E y W ! 2, replicate W (0, 0, 0)]"
    proof (cases "y = y0")
      case True
      have a: "\<forall>x < W. res ! (y0 * W + x) = word_of_int (chosen pal pix (4 * (y0 * W + x)) x (Ex x))
               \<and> diffused pal kern W pix (4 * (y0 * W + x)) x (Ex x) (Ex (Suc x))"
      proof (intro allI impI)
        fix x assume x: "x < W"
        have "res ! (y0 * W + x) = res1 ! (y0 * W + x)" using same x by simp
        then show "res ! (y0 * W + x) = word_of_int (chosen pal pix (4 * (y0 * W + x)) x (Ex x))
               \<and> diffused pal kern W pix (4 * (y0 * W + x)) x (Ex x) (Ex (Suc x))"
          using px1 x by (simp add: algebra_simps)
      qed
      have b: "E (Suc y0) 0 = [Ex W ! 1, Ex W ! 2, replicate W (0, 0, 0)]"
        using E0 ExW l0 by simp
      show ?thesis using True a b by simp
    next
      case False
      then have "Suc y0 \<le> y \<and> y < Suc y0 + n" using y by simp
      then show ?thesis using px False y by simp
    qed
  qed
  have same0: "\<forall>j < y0 * W. res ! j = out ! j"
    using same same1 by simp
  have "length res = length out \<and> ?E y0 0 = error" using len len1 Ex0 by simp
  with run all same0 show ?case by blast
qed

lemma chosen_range:
  "pal \<noteq> [] \<Longrightarrow> 0 \<le> chosen pal pix src x error \<and> chosen pal pix src x error < int (length pal)"
  by (simp add: chosen_def clamped_def NearestColor_range)

text \<open>
  Claim C2. \<open>RGB2P_ErrorDiffusion\<close> on a 4-byte/pixel bitmap of \<open>W\<close> by \<open>H\<close> pixels, an
  output of \<open>W * H\<close> bytes, a palette that is not empty and a kernel that is \<open>kernel_ok\<close>
  returns the output with its bytes rewritten, and the run has this course. \<open>E y x\<close> is the
  error when the pixel in column \<open>x\<close> of row \<open>y\<close> is reached (\<open>E y W\<close> the error when row
  \<open>y\<close> is done). The first pixel meets three rows of zeros. For every pixel, from column 0
  upwards: the byte written at \<open>y * W + x\<close> is \<open>chosen\<close>, the nearest index, inside the
  palette, of the colour \<open>clamped\<close> from the four bytes at \<open>4 * (y * W + x)\<close> of the source
  and the error \<open>E y x\<close> (source channel plus error divided by 65536, cut to 0..255), and the
  error that the next pixel meets, \<open>E y (x + 1)\<close>, is \<open>diffused\<close> from \<open>E y x\<close>: every cell
  grows by the residual (clamped channel minus channel of the chosen entry) times the weights
  of the targets \<open>(dx, dy)\<close> with \<open>dy\<close> the row of the cell and \<open>x + dx\<close> its column, so that
  a target whose column is below 0 or not below \<open>W\<close> adds nothing anywhere. After the row,
  row 1 of the error becomes row 0, row 2 becomes row 1 and row 2 is zeros. These equations
  leave no choice for \<open>E\<close> on the pixels of the image, nor for the bytes of the output.
\<close>

theorem RGB2P_ErrorDiffusion_every_pixel:
  assumes "ChunkyBitmap_ok bm" "BytesPerPixel bm = 4"
    and "Width out = Width bm" "Height out = Height bm" "BytesPerPixel out = 1"
    and "length (Pixels out) = Width bm * Height bm"
    and "pal \<noteq> []" "kernel_ok kern"
  shows "\<exists>pixels E. RGB2P_ErrorDiffusion bm out pal kern = Some (out\<lparr>Pixels := pixels\<rparr>)
    \<and> length pixels = Width bm * Height bm
    \<and> E 0 0 = replicate 3 (replicate (Width bm) (0, 0, 0))
    \<and> (\<forall>y < Height bm.
         (\<forall>x < Width bm.
            pixels ! (y * Width bm + x)
              = word_of_int (chosen pal (Pixels bm) (4 * (y * Width bm + x)) x (E y x))
            \<and> (\<exists>r g b. clamped (Pixels bm) (4 * (y * Width bm + x)) x (E y x) = (r, g, b)
                 \<and> 0 \<le> r \<and> r \<le> 255 \<and> 0 \<le> g \<and> g \<le> 255 \<and> 0 \<le> b \<and> b \<le> 255)
            \<and> 0 \<le> chosen pal (Pixels bm) (4 * (y * Width bm + x)) x (E y x)
            \<and> chosen pal (Pixels bm) (4 * (y * Width bm + x)) x (E y x) < int (length pal)
            \<and> diffused pal kern (Width bm) (Pixels bm) (4 * (y * Width bm + x)) x
                 (E y x) (E y (Suc x)))
         \<and> E (Suc y) 0 = [E y (Width bm) ! 1, E y (Width bm) ! 2, replicate (Width bm) (0, 0, 0)])"
proof -
  let ?W = "Width bm" and ?H = "Height bm"
  have ok0: "error_ok ?W (replicate 3 (replicate ?W (0, 0, 0)))" by (rule error_ok_initial)
  have fit: "(0 + ?H) * ?W \<le> length (Pixels out)" using assms(6) by (simp add: mult.commute)
  from ErrorDiffusion_rows_trace [OF assms(7,8) ok0 fit, of "Pixels bm"]
  obtain res E where
    rows: "ErrorDiffusion_rows pal kern ?W ?H (Pixels bm) 0 0 (Pixels out)
        (replicate 3 (replicate ?W (0, 0, 0))) = Some res"
    and len: "length res = length (Pixels out)"
    and E0: "E 0 0 = replicate 3 (replicate ?W (0, 0, 0))"
    and px: "\<forall>y. 0 \<le> y \<and> y < 0 + ?H \<longrightarrow>
            (\<forall>x < ?W. res ! (y * ?W + x)
                 = word_of_int (chosen pal (Pixels bm) (4 * (y * ?W + x)) x (E y x))
               \<and> diffused pal kern ?W (Pixels bm) (4 * (y * ?W + x)) x (E y x) (E y (Suc x)))
            \<and> E (Suc y) 0 = [E y ?W ! 1, E y ?W ! 2, replicate ?W (0, 0, 0)]"
    by auto
  have run: "RGB2P_ErrorDiffusion bm out pal kern = Some (out\<lparr>Pixels := res\<rparr>)"
    using rows assms(2,3,4,5) by (simp add: RGB2P_ErrorDiffusion_def)
  have rng: "0 \<le> chosen pal (Pixels bm) s x e \<and> chosen pal (Pixels bm) s x e < int (length pal)"
    for s x e
    using assms(7) by (rule chosen_range)
  have cl: "\<exists>r g b. clamped (Pixels bm) s x e = (r, g, b)
      \<and> 0 \<le> r \<and> r \<le> 255 \<and> 0 \<le> g \<and> g \<le> 255 \<and> 0 \<le> b \<and> b \<le> 255" for s x e
    using clamped_range [of "Pixels bm" s x e] by (cases "clamped (Pixels bm) s x e") blast
  have "length res = ?W * ?H" using len assms(6) by simp
  with run E0 px rng cl show ?thesis by (intro exI [of _ res] exI [of _ E]) simp
qed

text \<open>
  Witness for C2: a row of two pixels of the grey (100, 100, 100) against black and white
  with Floyd-Steinberg, into an output that held \<open>0xCD\<close>. The first pixel meets no error
  and becomes black; its residual is 100 in each channel, of which 7/16 go to the second
  pixel: 2867200, which is 43 units, and the second pixel, clamped to 143, becomes white.
\<close>

theorem RGB2P_ErrorDiffusion_every_pixel_witness:
  "RGB2P_ErrorDiffusion
     \<lparr>Width = 2, Height = 1, Pitch = 8, BytesPerPixel = 4,
        Pixels = [100, 100, 100, 255, 100, 100, 100, 255]\<rparr>
     \<lparr>Width = 2, Height = 1, Pitch = 2, BytesPerPixel = 1, Pixels = [0xCD, 0xCD]\<rparr>
     [\<lparr>red = 0, green = 0, blue = 0\<rparr>, \<lparr>red = 255, green = 255, blue = 255\<rparr>] FloydSteinberg
   = Some \<lparr>Width = 2, Height = 1, Pitch = 2, BytesPerPixel = 1, Pixels = [0, 1]\<rparr>
   \<and> kernel_ok FloydSteinberg
   \<and> chosen [\<lparr>red = 0, green = 0, blue = 0\<rparr>, \<lparr>red = 255, green = 255, blue = 255\<rparr>]
        [100, 100, 100, 255, 100, 100, 100, 255] 0 0 (replicate 3 (replicate 2 (0, 0, 0))) = 0
   \<and> residual [\<lparr>red = 0, green = 0, blue = 0\<rparr>, \<lparr>red = 255, green = 255, blue = 255\<rparr>]
        [100, 100, 100, 255, 100, 100, 100, 255] 0 0 (replicate 3 (replicate 2 (0, 0, 0)))
      = (100, 100, 100)
   \<and> kernel_share FloydSteinberg 0 0 1 = 28672
   \<and> clamped [100, 100, 100, 255, 100, 100, 100, 255] 4 1
        [[(0, 0, 0), (2867200, 2867200, 2867200)],
         [(2048000, 2048000, 2048000), (409600, 409600, 409600)],
         [(0, 0, 0), (0, 0, 0)]] = (143, 143, 143)"
proof -
  let ?bm = "\<lparr>Width = 2, Height = 1, Pitch = 8, BytesPerPixel = 4,
        Pixels = [100, 100, 100, 255, 100, 100, 100, 255]\<rparr>"
  let ?out = "\<lparr>Width = 2, Height = 1, Pitch = 2, BytesPerPixel = 1, Pixels = [0xCD, 0xCD]\<rparr>"
  let ?pal = "[\<lparr>red = 0, green = 0, blue = 0\<rparr>, \<lparr>red = 255, green = 255, blue = 255\<rparr>]"
  have ok: "ChunkyBitmap_ok ?bm" by (simp add: ChunkyBitmap_ok_def)
  have k: "kernel_ok FloydSteinberg"
    using builtin_kernel_ok by (simp add: ErrorDiffusionKernels_def)
  have run: "RGB2P_ErrorDiffusion ?bm ?out ?pal FloydSteinberg
      = Some \<lparr>Width = 2, Height = 1, Pitch = 2, BytesPerPixel = 1, Pixels = [0, 1]\<rparr>"
    by code_simp
  have c: "chosen ?pal [100, 100, 100, 255, 100, 100, 100, 255] 0 0
      (replicate 3 (replicate 2 (0, 0, 0))) = 0"
    by code_simp
  have r: "residual ?pal [100, 100, 100, 255, 100, 100, 100, 255] 0 0
      (replicate 3 (replicate 2 (0, 0, 0))) = (100, 100, 100)"
    by code_simp
  have s: "kernel_share FloydSteinberg 0 0 1 = 28672" by code_simp
  have cl: "clamped [100, 100, 100, 255, 100, 100, 100, 255] 4 1
        [[(0, 0, 0), (2867200, 2867200, 2867200)],
         [(2048000, 2048000, 2048000), (409600, 409600, 409600)],
         [(0, 0, 0), (0, 0, 0)]] = (143, 143, 143)"
    by code_simp
  from RGB2P_ErrorDiffusion_every_pixel [of ?bm ?out ?pal FloydSteinberg, OF ok _ _ _ _ _ _ k]
  have "\<exists>pixels. RGB2P_ErrorDiffusion ?bm ?out ?pal FloydSteinberg = Some (?out\<lparr>Pixels := pixels\<rparr>)
      \<and> length pixels = 2"
    by auto
  with run k c r s cl show ?thesis by simp
qed

section \<open>Where the built-in kernels send the error\<close>

lemma add_error_zero: "add_error c (0, 0, 0) = c"
  by (cases c) simp

lemma sum_list_map_zero: "(\<And>a. a \<in> set xs \<Longrightarrow> f a = (0::int)) \<Longrightarrow> sum_list (map f xs) = 0"
  by (induction xs) simp_all

text \<open>
  A kernel whose targets in the row of the pixel all lie to its right has no share for
  the cells of that row up to the pixel.
\<close>

lemma kernel_share_behind:
  assumes "list_all (\<lambda>d. list_all (\<lambda>t. 1 \<le> snd t \<or> 1 \<le> fst t) (targets d)) (kernel_entries k)"
    and "col \<le> x"
  shows "kernel_share k x 0 col = 0"
  unfolding kernel_share_def
proof (rule sum_list_map_zero)
  fix d assume "d \<in> set (kernel_entries k)"
  then have "\<forall>t \<in> set (targets d). 1 \<le> snd t \<or> 1 \<le> fst t"
    using assms(1) by (simp add: list_all_iff)
  then have "filter (\<lambda>t. snd t = int 0 \<and> int x + fst t = int col) (targets d) = []"
    using assms(2) by (auto simp: filter_empty_conv)
  then show "weight d * int (target_hits x 0 col (targets d)) = 0"
    by (simp add: target_hits_def)
qed

lemma builtin_kernel_forward:
  "list_all (\<lambda>k. list_all (\<lambda>d. list_all (\<lambda>t. 0 \<le> snd t \<and> snd t \<le> 2 \<and> (1 \<le> snd t \<or> 1 \<le> fst t))
      (targets d)) (kernel_entries k)) ErrorDiffusionKernels"
  by (simp add: ErrorDiffusionKernels_def kernel_entries_def targets_def
      FloydSteinberg_def JarvisJudiceNinke_def Stucki_def Burkes_def Atkinson_def Sierra3_def
      Sierra2_def SierraLite_def Diffuser_init_def countof_to_def)

text \<open>
  Claim C10. Every target \<open>(dx, dy)\<close> of every entry of the eight built-in kernels has
  \<open>0 \<le> dy \<le> 2\<close> and \<open>dy \<ge> 1\<close> or \<open>dx \<ge> 1\<close>. So for each of them the loop over the
  entries, at the pixel in column \<open>x\<close>, does not fail (no row of the error outside the three
  rows is touched), returns three rows of \<open>W\<close> cells again, and leaves the cells of row 0
  from column 0 to column \<open>x\<close>, the pixel itself and those before it, as they were: error
  goes only to pixels that come later in raster order.
\<close>

theorem builtin_kernels_diffuse_forward:
  "(\<forall>k \<in> set ErrorDiffusionKernels. \<forall>d \<in> set (kernel_entries k). \<forall>t \<in> set (targets d).
      0 \<le> snd t \<and> snd t \<le> 2 \<and> (1 \<le> snd t \<or> 1 \<le> fst t))
   \<and> (\<forall>k \<in> set ErrorDiffusionKernels. error_ok W error \<and> x < W \<longrightarrow>
        (\<exists>e. diffuse_entries W x rgb k error = Some e \<and> error_ok W e
          \<and> (\<forall>col \<le> x. e ! 0 ! col = error ! 0 ! col)))"
proof (intro conjI ballI impI)
  fix k d t
  assume "k \<in> set ErrorDiffusionKernels" "d \<in> set (kernel_entries k)" "t \<in> set (targets d)"
  then show "0 \<le> snd t" "snd t \<le> 2" "1 \<le> snd t \<or> 1 \<le> fst t"
    using builtin_kernel_forward by (auto simp: list_all_iff)
next
  fix k assume k: "k \<in> set ErrorDiffusionKernels" and a: "error_ok W error \<and> x < W"
  have ok: "kernel_ok k" using k builtin_kernel_ok by (simp add: list_all_iff)
  have fwd: "list_all (\<lambda>d. list_all (\<lambda>t. 1 \<le> snd t \<or> 1 \<le> fst t) (targets d)) (kernel_entries k)"
    using k builtin_kernel_forward by (auto simp: list_all_iff)
  obtain e where e: "diffuse_entries W x rgb k error = Some e"
    using diffuse_entries_Some [OF ok] by blast
  have shape: "error_ok W e" using e a by (auto intro: diffuse_entries_shape)
  have "e ! 0 ! col = error ! 0 ! col" if "col \<le> x" for col
  proof -
    have "col < W" using that a by simp
    from diffuse_entries_cell [OF e _ _ this, of 0] a
    show ?thesis using kernel_share_behind [OF fwd that] by (cases rgb) (simp add: add_error_zero)
  qed
  then show "\<exists>e. diffuse_entries W x rgb k error = Some e \<and> error_ok W e
      \<and> (\<forall>col \<le> x. e ! 0 ! col = error ! 0 ! col)"
    using e shape by blast
qed

text \<open>
  Witness for C10: Jarvis-Judice-Ninke in the middle of a row of five. The twelve targets
  land in columns 3 and 4 of row 0 and in rows 1 and 2; columns 0 to 2 of row 0 keep their
  error.
\<close>

theorem builtin_kernels_diffuse_forward_witness:
  "JarvisJudiceNinke \<in> set ErrorDiffusionKernels
   \<and> diffuse_entries 5 2 (1, 0, - 1) JarvisJudiceNinke
       [[(1, 1, 1), (2, 2, 2), (3, 3, 3), (0, 0, 0), (0, 0, 0)],
        replicate 5 (0, 0, 0), replicate 5 (0, 0, 0)]
     = Some
       [[(1, 1, 1), (2, 2, 2), (3, 3, 3), (9557, 0, - 9557), (6826, 0, - 6826)],
        [(4096, 0, - 4096), (6826, 0, - 6826), (9557, 0, - 9557), (6826, 0, - 6826),
         (4096, 0, - 4096)],
        [(1365, 0, - 1365), (4096, 0, - 4096), (6826, 0, - 6826), (4096, 0, - 4096),
         (1365, 0, - 1365)]]"
proof -
  let ?error = "[[(1, 1, 1), (2, 2, 2), (3, 3, 3), (0, 0, 0), (0, 0, 0)],
        replicate 5 (0, 0, 0), replicate 5 (0, 0, 0)] :: errcell list list"
  have mem: "JarvisJudiceNinke \<in> set ErrorDiffusionKernels"
    by (simp add: ErrorDiffusionKernels_def)
  have shape: "error_ok 5 ?error \<and> (2::nat) < 5" by (simp add: error_ok_def)
  have run: "diffuse_entries 5 2 (1, 0, - 1) JarvisJudiceNinke ?error
     = Some
       [[(1, 1, 1), (2, 2, 2), (3, 3, 3), (9557, 0, - 9557), (6826, 0, - 6826)],
        [(4096, 0, - 4096), (6826, 0, - 6826), (9557, 0, - 9557), (6826, 0, - 6826),
         (4096, 0, - 4096)],
        [(1365, 0, - 1365), (4096, 0, - 4096), (6826, 0, - 6826), (4096, 0, - 4096),
         (1365, 0, - 1365)]]"
    by code_simp
  from builtin_kernels_diffuse_forward [of 5 ?error 2 "(1, 0, - 1)"] mem shape
  have "\<exists>e. diffuse_entries 5 2 (1, 0, - 1) JarvisJudiceNinke ?error = Some e \<and> error_ok 5 e"
    by blast
  with mem run show ?thesis by simp
qed

section \<open>The range of the indices\<close>

lemma unat_word_of_int_le: "0 \<le> c \<Longrightarrow> unat (word_of_int c :: 8 word) \<le> nat c"
proof -
  assume c: "0 \<le> c"
  have "c mod 256 \<le> c" using c by (rule zmod_le_nonneg_dividend)
  then show ?thesis by (simp add: unat_eq_nat_uint uint_word_of_int take_bit_eq_mod nat_mono)
qed

lemma index_byte_in_palette:
  "0 \<le> c \<and> c < int (length pal) \<Longrightarrow> unat (word_of_int c :: 8 word) < length pal"
  using unat_word_of_int_le [of c] by linarith

text \<open>
  Every byte of the output is written, without dithering and with a kernel, and what is
  written is an index of the palette stored into a byte: the content of the new buffer does
  not reach the image.
\<close>

lemma BasicQuantize_bytes:
  assumes "pal \<noteq> []" "length out = n" "i < n"
  shows "unat (RGB2P_BasicQuantize_loop pal n 0 0 pix out ! i) < length pal"
proof -
  let ?c = "NearestColor pal (uint (pix ! (0 + 4 * i))) (uint (pix ! (0 + 4 * i + 1)))
      (uint (pix ! (0 + 4 * i + 2))) 0 (int (length pal))"
  have "RGB2P_BasicQuantize_loop pal n 0 0 pix out ! (0 + i) = word_of_int ?c"
    using assms(2,3) by (intro BasicQuantize_loop_nth) simp_all
  moreover have "0 < int (length pal)" using assms(1) by simp
  then have "0 \<le> ?c \<and> ?c < int (length pal)" by (rule NearestColor_range)
  then have "unat (word_of_int ?c :: 8 word) < length pal" by (rule index_byte_in_palette)
  ultimately show ?thesis by simp
qed

lemma ErrorDiffusion_bytes:
  assumes "pal \<noteq> []" "kernel_ok kern" "length out = W * H"
  shows "\<exists>res. ErrorDiffusion_rows pal kern W H pix 0 0 out (replicate 3 (replicate W (0, 0, 0)))
        = Some res
    \<and> length res = W * H \<and> (\<forall>i < W * H. unat (res ! i) < length pal)"
proof -
  have ok0: "error_ok W (replicate 3 (replicate W (0, 0, 0)))" by (rule error_ok_initial)
  have fit: "(0 + H) * W \<le> length out" using assms(3) by (simp add: mult.commute)
  from ErrorDiffusion_rows_trace [OF assms(1,2) ok0 fit, of pix]
  obtain res E where
    rows: "ErrorDiffusion_rows pal kern W H pix 0 0 out (replicate 3 (replicate W (0, 0, 0)))
        = Some res"
    and len: "length res = length out"
    and px: "\<forall>y. 0 \<le> y \<and> y < 0 + H \<longrightarrow>
            (\<forall>x < W. res ! (y * W + x) = word_of_int (chosen pal pix (4 * (y * W + x)) x (E y x))
               \<and> diffused pal kern W pix (4 * (y * W + x)) x (E y x) (E y (Suc x)))
            \<and> E (Suc y) 0 = [E y W ! 1, E y W ! 2, replicate W (0, 0, 0)]"
    by auto
  have px': "res ! (y * W + x) = word_of_int (chosen pal pix (4 * (y * W + x)) x (E y x))"
    if "y < H" "x < W" for y x
    using px that by simp
  have "unat (res ! i) < length pal" if i: "i < W * H" for i
  proof -
    have W: "0 < W" using i by (cases W) simp_all
    have y: "i div W < H" using i W by (simp add: less_mult_imp_div_less mult.commute)
    have x: "i mod W < W" using W by simp
    have "res ! (i div W * W + i mod W)
        = word_of_int (chosen pal pix (4 * (i div W * W + i mod W)) (i mod W) (E (i div W) (i mod W)))"
      using y x by (rule px')
    moreover have "0 \<le> chosen pal pix (4 * (i div W * W + i mod W)) (i mod W) (E (i div W) (i mod W))
        \<and> chosen pal pix (4 * (i div W * W + i mod W)) (i mod W) (E (i div W) (i mod W))
            < int (length pal)"
      using assms(1) by (rule chosen_range)
    ultimately have "unat (res ! (i div W * W + i mod W)) < length pal"
      by (simp add: index_byte_in_palette)
    then show ?thesis by simp
  qed
  then show ?thesis using rows len assms(3) by simp
qed

lemma RGBtoPalette_bytes:
  assumes "pal \<noteq> []" "Width bm \<noteq> 0" "Height bm \<noteq> 0" "BytesPerPixel bm = 4"
  shows "\<exists>out. RGBtoPalette bm pal dithermode fresh = Some out
    \<and> length (Pixels out) = Width bm * Height bm
    \<and> (\<forall>i < Width bm * Height bm. unat (Pixels out ! i) < length pal)"
proof -
  let ?W = "Width bm" and ?H = "Height bm"
  let ?out0 = "\<lparr>Width = ?W, Height = ?H, Pitch = ?W * 1, BytesPerPixel = 1,
      Pixels = map fresh [0 ..< ?W * 1 * ?H]\<rparr>"
  have alloc: "Alloc ?W ?H 1 fresh = Some ?out0"
    using assms(2,3) by (simp add: Alloc_Some)
  have len0: "length (Pixels ?out0) = ?W * ?H" by simp
  show ?thesis
  proof (cases "dithermode \<le> 0 \<or> dithermode > int (length ErrorDiffusionKernels)")
    case True
    let ?res = "RGB2P_BasicQuantize_loop pal (?W * ?H) 0 0 (Pixels bm) (Pixels ?out0)"
    have "RGBtoPalette bm pal dithermode fresh = Some (?out0\<lparr>Pixels := ?res\<rparr>)"
      using True alloc assms(4) by (simp add: RGBtoPalette_def RGB2P_BasicQuantize_def)
    moreover have "length ?res = ?W * ?H" by (simp add: BasicQuantize_loop_length)
    moreover have "\<forall>i < ?W * ?H. unat (?res ! i) < length pal"
      using BasicQuantize_bytes [OF assms(1) len0] by blast
    ultimately show ?thesis by simp
  next
    case False
    let ?k = "ErrorDiffusionKernels ! nat (dithermode - 1)"
    have "nat (dithermode - 1) < length ErrorDiffusionKernels" using False by auto
    then have ok: "kernel_ok ?k" using builtin_kernel_ok by (simp add: list_all_length)
    from ErrorDiffusion_bytes [OF assms(1) ok len0, of "Pixels bm"]
    obtain res where "ErrorDiffusion_rows pal ?k ?W ?H (Pixels bm) 0 0 (Pixels ?out0)
          (replicate 3 (replicate ?W (0, 0, 0))) = Some res"
      and "length res = ?W * ?H" and "\<forall>i < ?W * ?H. unat (res ! i) < length pal"
      by blast
    then show ?thesis
      using False alloc assms(4) by (simp add: RGBtoPalette_def RGB2P_ErrorDiffusion_def)
  qed
qed

lemma RGBtoPalette_SomeD:
  "RGBtoPalette bm pal dithermode fresh = Some out \<Longrightarrow>
    Width bm \<noteq> 0 \<and> Height bm \<noteq> 0 \<and> BytesPerPixel bm = 4"
  by (auto simp: RGBtoPalette_def Alloc_def RGB2P_BasicQuantize_def RGB2P_ErrorDiffusion_def
      split: option.splits if_splits)

text \<open>
  Claim C5, as amended. For a palette that is not empty, whatever the bitmap, the dither
  mode and the content of the new buffer: when \<open>RGBtoPalette\<close> returns an image, it has
  \<open>Width * Height\<close> bytes and every one of them is below the size of the palette; and it
  does return one for every well-formed 4-byte/pixel bitmap.
\<close>

theorem RGBtoPalette_index_range:
  assumes "pal \<noteq> []"
  shows "(\<forall>out. RGBtoPalette bm pal dithermode fresh = Some out \<longrightarrow>
      length (Pixels out) = Width bm * Height bm
      \<and> (\<forall>i < length (Pixels out). unat (Pixels out ! i) < length pal))
   \<and> (ChunkyBitmap_ok bm \<and> BytesPerPixel bm = 4 \<longrightarrow>
        (\<exists>out. RGBtoPalette bm pal dithermode fresh = Some out))"
proof -
  have a: "length (Pixels out) = Width bm * Height bm
      \<and> (\<forall>i < length (Pixels out). unat (Pixels out ! i) < length pal)"
    if ret: "RGBtoPalette bm pal dithermode fresh = Some out" for out
  proof -
    from RGBtoPalette_SomeD [OF ret] RGBtoPalette_bytes [OF assms, of bm dithermode fresh]
    obtain out' where "RGBtoPalette bm pal dithermode fresh = Some out'"
      and "length (Pixels out') = Width bm * Height bm"
      and "\<forall>i < Width bm * Height bm. unat (Pixels out' ! i) < length pal"
      by blast
    with ret show ?thesis by simp
  qed
  have b: "\<exists>out. RGBtoPalette bm pal dithermode fresh = Some out"
    if "ChunkyBitmap_ok bm \<and> BytesPerPixel bm = 4"
  proof -
    from that have "Width bm \<noteq> 0" "Height bm \<noteq> 0" "BytesPerPixel bm = 4"
      by (simp_all add: ChunkyBitmap_ok_def)
    from RGBtoPalette_bytes [OF assms this, of dithermode fresh]
    show ?thesis by blast
  qed
  show ?thesis using a b by blast
qed

text \<open>
  Claim C5 as it is stated, for every palette, fails for the empty palette without
  dithering: \<open>NearestColor\<close> has nothing to search and returns 0, which is stored in every
  byte of the image, and no byte is below the size of the palette, which is 0.
\<close>

theorem RGBtoPalette_index_range_counterexample:
  "RGBtoPalette
     \<lparr>Width = 1, Height = 1, Pitch = 4, BytesPerPixel = 4, Pixels = [10, 20, 30, 255]\<rparr>
     [] 0 (\<lambda>a. 0xCD)
    = Some \<lparr>Width = 1, Height = 1, Pitch = 1, BytesPerPixel = 1, Pixels = [0]\<rparr>
   \<and> \<not> unat (0 :: uint8_t) < length ([] :: ColorRegister list)"
  by (simp add: RGBtoPalette_def Alloc_def RGB2P_BasicQuantize_def ErrorDiffusionKernels_def
      NearestColor_empty_range)

text \<open>
  Witness for C5: a row of two grey pixels against black and white with Floyd-Steinberg,
  where the error of the first pixel turns the second one white, in a buffer that held
  \<open>0xCD\<close>.
\<close>

theorem RGBtoPalette_index_range_witness:
  "RGBtoPalette
     \<lparr>Width = 2, Height = 1, Pitch = 8, BytesPerPixel = 4,
       Pixels = [120, 120, 120, 255, 120, 120, 120, 255]\<rparr>
     [\<lparr>red = 0, green = 0, blue = 0\<rparr>, \<lparr>red = 255, green = 255, blue = 255\<rparr>] 1 (\<lambda>a. 0xCD)
   = Some \<lparr>Width = 2, Height = 1, Pitch = 2, BytesPerPixel = 1, Pixels = [0, 1]\<rparr>
   \<and> ChunkyBitmap_ok \<lparr>Width = 2, Height = 1, Pitch = 8, BytesPerPixel = 4,
       Pixels = [120, 120, 120, 255, 120, 120, 120, 255]\<rparr>"
proof -
  let ?bm = "\<lparr>Width = 2, Height = 1, Pitch = 8, BytesPerPixel = 4,
       Pixels = [120, 120, 120, 255, 120, 120, 120, 255]\<rparr>"
  let ?pal = "[\<lparr>red = 0, green = 0, blue = 0\<rparr>, \<lparr>red = 255, green = 255, blue = 255\<rparr>]"
  have ok: "ChunkyBitmap_ok ?bm" by (simp add: ChunkyBitmap_ok_def)
  have run: "RGBtoPalette ?bm ?pal 1 (\<lambda>a. 0xCD)
      = Some \<lparr>Width = 2, Height = 1, Pitch = 2, BytesPerPixel = 1, Pixels = [0, 1]\<rparr>"
    by code_simp
  from RGBtoPalette_index_range [of ?pal ?bm 1 "\<lambda>a. 0xCD"] ok
  have "\<exists>out. RGBtoPalette ?bm ?pal 1 (\<lambda>a. 0xCD) = Some out" by simp
  with run ok show ?thesis by simp
qed

section \<open>Hold-and-modify\<close>

lemma HAM_color_Cons:
  "HAM_color pixel c (x # xs) (Suc k) = HAM_color pixel (pixel c x) xs k"
  by (induction k) simp_all

lemma HAM_color_drop:
  "src < length pix \<Longrightarrow>
    HAM_color pixel c (drop src pix) (Suc k) = HAM_color pixel (pixel c (pix ! src)) (drop (Suc src) pix) k"
proof -
  assume "src < length pix"
  then have "drop src pix = pix ! src # drop (Suc src) pix" by (simp add: Cons_nth_drop_Suc)
  then show ?thesis by (simp only: HAM_color_Cons)
qed


lemma HAM_loop_before:
  "i < dest \<Longrightarrow> HAM_loop pixel n src dest color pix out ! i = out ! i"
  by (induction n arbitrary: src dest color out) (simp_all add: Let_def)

text \<open>
  The loop writes, at \<open>dest + 4 * k\<close>, the running colour after the pixel \<open>src + k\<close> and
  the byte \<open>0xFF\<close>.
\<close>

lemma HAM_loop_pixel:
  assumes "k < n" "dest + 4 * n \<le> length out" "src + n \<le> length pix"
  shows "HAM_loop pixel n src dest color pix out ! (dest + 4 * k) = red (HAM_color pixel color (drop src pix) k)
    \<and> HAM_loop pixel n src dest color pix out ! (dest + 4 * k + 1) = green (HAM_color pixel color (drop src pix) k)
    \<and> HAM_loop pixel n src dest color pix out ! (dest + 4 * k + 2) = blue (HAM_color pixel color (drop src pix) k)
    \<and> HAM_loop pixel n src dest color pix out ! (dest + 4 * k + 3) = 0xFF"
  using assms
proof (induction n arbitrary: src dest color out k)
  case 0
  then show ?case by simp
next
  case (Suc n)
  let ?c1 = "pixel color (pix ! src)"
  let ?out1 = "out[dest := red ?c1, dest + 1 := green ?c1, dest + 2 := blue ?c1, dest + 3 := 0xFF]"
  have step: "HAM_loop pixel (Suc n) src dest color pix out
      = HAM_loop pixel n (src + 1) (dest + 4) ?c1 pix ?out1"
    by (simp add: Let_def)
  have src: "src < length pix" using Suc.prems(3) by simp
  show ?case
  proof (cases k)
    case 0
    have b: "HAM_loop pixel (Suc n) src dest color pix out ! (dest + j) = ?out1 ! (dest + j)"
      if "j < 4" for j
      unfolding step using that by (simp add: HAM_loop_before)
    have o: "?out1 ! dest = red ?c1" "?out1 ! (dest + 1) = green ?c1"
      "?out1 ! (dest + 2) = blue ?c1" "?out1 ! (dest + 3) = 0xFF"
      using Suc.prems(2) by (simp_all add: nth_list_update)
    have c: "HAM_color pixel color (drop src pix) 0 = ?c1"
      using src by simp
    show ?thesis
      unfolding 0 c using b [of 0] b [of 1] b [of 2] b [of 3] o by simp
  next
    case (Suc k')
    have "dest + 4 + 4 * n \<le> length ?out1" "src + 1 + n \<le> length pix" "k' < n"
      using Suc.prems Suc by simp_all
    from Suc.IH [OF this(3) this(1) this(2), of ?c1] show ?thesis
      unfolding step Suc HAM_color_drop [OF src]
      by (simp add: add.assoc add.commute add.left_commute del: HAM_color.simps)
  qed
qed


text \<open>What \<open>HAM6toRGB\<close> and \<open>HAM8toRGB\<close> return, pixel by pixel, whatever the new buffer
  held.\<close>

lemma HAM_loop_image:
  assumes "length pix = n" "k < n" "n = w * h"
  shows "HAM_loop pixel n 0 0 color pix (map fresh [0 ..< w * 4 * h]) ! (4 * k) = red (HAM_color pixel color pix k)
    \<and> HAM_loop pixel n 0 0 color pix (map fresh [0 ..< w * 4 * h]) ! (4 * k + 1) = green (HAM_color pixel color pix k)
    \<and> HAM_loop pixel n 0 0 color pix (map fresh [0 ..< w * 4 * h]) ! (4 * k + 2) = blue (HAM_color pixel color pix k)
    \<and> HAM_loop pixel n 0 0 color pix (map fresh [0 ..< w * 4 * h]) ! (4 * k + 3) = 0xFF"
  using HAM_loop_pixel [of k n 0 "map fresh [0 ..< w * 4 * h]" 0 pix pixel color] assms
  by simp

lemma HAM6toRGB_Some:
  assumes "ChunkyBitmap_ok bm" "BytesPerPixel bm = 1" "16 \<le> length pal"
  shows "HAM6toRGB bm pal fresh = Some \<lparr>Width = Width bm, Height = Height bm, Pitch = Width bm * 4,
    BytesPerPixel = 4,
    Pixels = HAM_loop (HAM6_pixel pal) (Width bm * Height bm) 0 0 (pal ! 0) (Pixels bm)
      (map fresh [0 ..< Width bm * 4 * Height bm])\<rparr>"
  using assms by (simp add: HAM6toRGB_def ChunkyBitmap_ok_def Alloc_def)



lemma HAM6_pixel_base: "s AND 0xF0 = 0 \<Longrightarrow> HAM6_pixel pal color s = pal ! unat s"
  by (simp add: HAM6_pixel_def Let_def)


lemma HAM_color_step:
  "HAM_color pixel color0 pix k = pixel (case k of 0 \<Rightarrow> color0 | Suc j \<Rightarrow> HAM_color pixel color0 pix j) (pix ! k)"
  by (cases k) simp_all








text \<open>
  Claim C9. In \<open>HAM6toRGB\<close> a byte in a modify mode replaces one channel of the running
  colour with the intensity \<open>(v << 4) | v\<close> of its low four bits \<open>v\<close> and leaves the other
  two as they were: blue for the mode bits \<open>0x10\<close>, red for \<open>0x20\<close>, green for \<open>0x30\<close>.
  In particular, when pixel \<open>k\<close> is a base colour and pixel \<open>k + 1\<close> modifies blue, pixel
  \<open>k + 1\<close> is emitted with the red and green of pixel \<open>k\<close>, those of the palette entry, and
  with the decoded intensity as blue.
\<close>

theorem HAM6_modify_keeps_other_channels:
  "(s AND 0xF0 = 0x10 \<longrightarrow>
      HAM6_pixel pal color s = color\<lparr>blue := (s AND 0x0F) OR push_bit 4 (s AND 0x0F)\<rparr>
      \<and> red (HAM6_pixel pal color s) = red color \<and> green (HAM6_pixel pal color s) = green color)
   \<and> (s AND 0xF0 = 0x20 \<longrightarrow>
      HAM6_pixel pal color s = color\<lparr>red := (s AND 0x0F) OR push_bit 4 (s AND 0x0F)\<rparr>
      \<and> green (HAM6_pixel pal color s) = green color \<and> blue (HAM6_pixel pal color s) = blue color)
   \<and> (s AND 0xF0 = 0x30 \<longrightarrow>
      HAM6_pixel pal color s = color\<lparr>green := (s AND 0x0F) OR push_bit 4 (s AND 0x0F)\<rparr>
      \<and> red (HAM6_pixel pal color s) = red color \<and> blue (HAM6_pixel pal color s) = blue color)
   \<and> (ChunkyBitmap_ok bm \<and> BytesPerPixel bm = 1 \<and> 16 \<le> length pal
        \<and> Suc k < Width bm * Height bm
        \<and> Pixels bm ! k AND 0xF0 = 0 \<and> Pixels bm ! Suc k AND 0xF0 = 0x10 \<longrightarrow>
      (\<exists>out. HAM6toRGB bm pal fresh = Some out
        \<and> Pixels out ! (4 * k) = red (pal ! unat (Pixels bm ! k))
        \<and> Pixels out ! (4 * k + 1) = green (pal ! unat (Pixels bm ! k))
        \<and> Pixels out ! (4 * Suc k) = Pixels out ! (4 * k)
        \<and> Pixels out ! (4 * Suc k + 1) = Pixels out ! (4 * k + 1)
        \<and> Pixels out ! (4 * Suc k + 2)
            = (Pixels bm ! Suc k AND 0x0F) OR push_bit 4 (Pixels bm ! Suc k AND 0x0F)))"
proof (intro conjI impI)
  assume a: "ChunkyBitmap_ok bm \<and> BytesPerPixel bm = 1 \<and> 16 \<le> length pal
        \<and> Suc k < Width bm * Height bm
        \<and> Pixels bm ! k AND 0xF0 = 0 \<and> Pixels bm ! Suc k AND 0xF0 = 0x10"
  let ?col = "HAM_color (HAM6_pixel pal) (pal ! 0) (Pixels bm)"
  have len: "length (Pixels bm) = Width bm * Height bm"
    using a by (simp add: ChunkyBitmap_ok_def)
  have k: "k < Width bm * Height bm" using a by simp
  have ck: "?col k = pal ! unat (Pixels bm ! k)"
    using a by (subst HAM_color_step) (simp add: HAM6_pixel_base)
  have ck1: "?col (Suc k) = (pal ! unat (Pixels bm ! k))
      \<lparr>blue := (Pixels bm ! Suc k AND 0x0F) OR push_bit 4 (Pixels bm ! Suc k AND 0x0F)\<rparr>"
    using a ck by (simp add: HAM6_pixel_def Let_def)
  show "\<exists>out. HAM6toRGB bm pal fresh = Some out
        \<and> Pixels out ! (4 * k) = red (pal ! unat (Pixels bm ! k))
        \<and> Pixels out ! (4 * k + 1) = green (pal ! unat (Pixels bm ! k))
        \<and> Pixels out ! (4 * Suc k) = Pixels out ! (4 * k)
        \<and> Pixels out ! (4 * Suc k + 1) = Pixels out ! (4 * k + 1)
        \<and> Pixels out ! (4 * Suc k + 2)
            = (Pixels bm ! Suc k AND 0x0F) OR push_bit 4 (Pixels bm ! Suc k AND 0x0F)"
    using a HAM_loop_image [OF len k refl, of "HAM6_pixel pal" "pal ! 0"]
      HAM_loop_image [OF len _ refl, of "Suc k" "HAM6_pixel pal" "pal ! 0"]
    unfolding ck ck1
    by (simp add: HAM6toRGB_Some del: HAM_color.simps)
qed (simp_all add: HAM6_pixel_def Let_def)

text \<open>
  Witness for C9: the base colour 7 of a palette with entry 7 = (112, 14, 21), then a byte
  that sets blue to \<open>0xAA\<close>.
\<close>

theorem HAM6_modify_keeps_other_channels_witness:
  "HAM6toRGB \<lparr>Width = 3, Height = 1, Pitch = 3, BytesPerPixel = 1, Pixels = [0x07, 0x1A, 0x45]\<rparr>
     (map (\<lambda>i. \<lparr>red = of_nat (16 * i), green = of_nat (2 * i), blue = of_nat (3 * i)\<rparr>) [0..<16])
     (\<lambda>a. 0xCD)
   = Some \<lparr>Width = 3, Height = 1, Pitch = 12, BytesPerPixel = 4,
       Pixels = [112, 14, 21, 255, 112, 14, 170, 255, 112, 14, 170, 255]\<rparr>
   \<and> (0x1A :: 8 word) AND 0xF0 = 0x10 \<and> (0x07 :: 8 word) AND 0xF0 = 0"
proof -
  let ?bm = "\<lparr>Width = 3, Height = 1, Pitch = 3, BytesPerPixel = 1, Pixels = [0x07, 0x1A, 0x45]\<rparr>"
  let ?pal = "map (\<lambda>i. \<lparr>red = of_nat (16 * i), green = of_nat (2 * i), blue = of_nat (3 * i)\<rparr>) [0..<16]"
  have hyp: "ChunkyBitmap_ok ?bm \<and> BytesPerPixel ?bm = 1 \<and> 16 \<le> length ?pal
        \<and> Suc 0 < Width ?bm * Height ?bm
        \<and> Pixels ?bm ! 0 AND 0xF0 = 0 \<and> Pixels ?bm ! Suc 0 AND 0xF0 = 0x10"
    by (simp add: ChunkyBitmap_ok_def)
  have run: "HAM6toRGB ?bm ?pal (\<lambda>a. 0xCD)
      = Some \<lparr>Width = 3, Height = 1, Pitch = 12, BytesPerPixel = 4,
       Pixels = [112, 14, 21, 255, 112, 14, 170, 255, 112, 14, 170, 255]\<rparr>"
    by code_simp
  from HAM6_modify_keeps_other_channels [of "0x1A" ?pal "?pal ! 0" ?bm 0 "\<lambda>a. 0xCD"] hyp
  have "\<exists>out. HAM6toRGB ?bm ?pal (\<lambda>a. 0xCD) = Some out \<and> Pixels out ! (4 * Suc 0) = Pixels out ! (4 * 0)"
    by blast
  with run hyp show ?thesis by simp
qed

section \<open>Expand\<close>

lemma memcpy_length: "length (memcpy mem dst src n) = length mem"
  by (simp add: memcpy_def)

lemma memcpy_nth:
  "i < length mem \<Longrightarrow>
    memcpy mem dst src n ! i = (if dst \<le> i \<and> i < dst + n then mem ! (src + (i - dst)) else mem ! i)"
  by (simp add: memcpy_def)

text \<open>
  \<open>scalex\<close> copies of one pixel, written downwards from \<open>base + xx\<close>. The pixel that is
  read lies at or below \<open>base\<close>, so no write but possibly the last, onto itself, reaches it.
\<close>

lemma Expand_pixel_spec:
  assumes "s \<le> base" "base + xx \<le> length mem"
  shows "fst (Expand_pixel xx s (base + xx) mem) = base
    \<and> length (snd (Expand_pixel xx s (base + xx) mem)) = length mem
    \<and> (\<forall>i < length mem. snd (Expand_pixel xx s (base + xx) mem) ! i
          = (if base \<le> i \<and> i < base + xx then mem ! s else mem ! i))"
  using assms
proof (induction xx arbitrary: mem)
  case 0
  then show ?case by auto
next
  case (Suc xx)
  let ?mem1 = "mem[base + xx := mem ! s]"
  have step: "Expand_pixel (Suc xx) s (base + Suc xx) mem = Expand_pixel xx s (base + xx) ?mem1"
    by simp
  have len: "base + xx \<le> length ?mem1" using Suc.prems by simp
  have s: "?mem1 ! s = mem ! s"
    using Suc.prems by (cases "s = base + xx") simp_all
  from Suc.IH [OF Suc.prems(1) len] show ?case
    unfolding step using s Suc.prems by (auto simp: nth_list_update)
qed

text \<open>
  One source row of \<open>m\<close> pixels at \<open>src\<close>, expanded into the \<open>m * scalex\<close> slots from
  \<open>base\<close> on, where \<open>src \<le> base\<close>: the row may be expanded onto itself.
\<close>

lemma Expand_horizontal_spec:
  assumes "0 < scalex" "src \<le> base" "base + m * scalex \<le> length mem"
  shows "fst (Expand_horizontal scalex m src (base + m * scalex) mem) = base
    \<and> length (snd (Expand_horizontal scalex m src (base + m * scalex) mem)) = length mem
    \<and> (\<forall>j < m * scalex. snd (Expand_horizontal scalex m src (base + m * scalex) mem) ! (base + j)
          = mem ! (src + j div scalex))
    \<and> (\<forall>i < length mem. i < base \<or> base + m * scalex \<le> i \<longrightarrow>
          snd (Expand_horizontal scalex m src (base + m * scalex) mem) ! i = mem ! i)"
  using assms
proof (induction m arbitrary: mem)
  case 0
  then show ?case by simp
next
  case (Suc m)
  let ?b1 = "base + m * scalex"
  let ?p = "Expand_pixel scalex (src + m) (?b1 + scalex) mem"
  have dest: "base + Suc m * scalex = ?b1 + scalex" by simp
  have sle: "src + m \<le> ?b1"
  proof -
    have "m \<le> m * scalex" using Suc.prems(1) by simp
    then show ?thesis using Suc.prems(2) by linarith
  qed
  have len: "?b1 + scalex \<le> length mem" using Suc.prems(3) by simp
  from Expand_pixel_spec [OF sle len]
  have p1: "fst ?p = ?b1" and p2: "length (snd ?p) = length mem"
    and p3: "\<And>i. i < length mem \<Longrightarrow>
      snd ?p ! i = (if ?b1 \<le> i \<and> i < ?b1 + scalex then mem ! (src + m) else mem ! i)"
    by blast+
  have step: "Expand_horizontal scalex (Suc m) src (base + Suc m * scalex) mem
      = Expand_horizontal scalex m src ?b1 (snd ?p)"
    unfolding dest using p1 by (simp add: case_prod_beta)
  have len1: "?b1 \<le> length (snd ?p)" using p2 len by simp
  from Suc.IH [OF Suc.prems(1,2) len1]
  have h1: "fst (Expand_horizontal scalex m src ?b1 (snd ?p)) = base"
    and h2: "length (snd (Expand_horizontal scalex m src ?b1 (snd ?p))) = length mem"
    and h3: "\<And>j. j < m * scalex \<Longrightarrow>
      snd (Expand_horizontal scalex m src ?b1 (snd ?p)) ! (base + j) = snd ?p ! (src + j div scalex)"
    and h4: "\<And>i. i < length mem \<Longrightarrow> i < base \<or> ?b1 \<le> i \<Longrightarrow>
      snd (Expand_horizontal scalex m src ?b1 (snd ?p)) ! i = snd ?p ! i"
    using p2 by auto
  have inside: "snd (Expand_horizontal scalex m src ?b1 (snd ?p)) ! (base + j) = mem ! (src + j div scalex)"
    if j: "j < Suc m * scalex" for j
  proof (cases "j < m * scalex")
    case True
    then have q: "j div scalex < m"
      using Suc.prems(1) by (simp add: less_mult_imp_div_less)
    then have "src + j div scalex < ?b1" using sle by linarith
    moreover have "src + j div scalex < length mem" using calculation len by linarith
    ultimately show ?thesis using h3 [OF True] p3 [of "src + j div scalex"] by simp
  next
    case False
    then have ge: "m * scalex \<le> j" by simp
    have "j div scalex = m"
      using ge j Suc.prems(1) by (intro div_nat_eqI) (simp_all add: mult.commute)
    moreover have "base + j < length mem" using j Suc.prems(3) by simp
    moreover have "?b1 \<le> base + j" "base + j < ?b1 + scalex" using ge j by simp_all
    ultimately show ?thesis using h4 [of "base + j"] p3 [of "base + j"] by simp
  qed
  have outside: "snd (Expand_horizontal scalex m src ?b1 (snd ?p)) ! i = mem ! i"
    if "i < length mem" "i < base \<or> base + Suc m * scalex \<le> i" for i
    using that h4 [of i] p3 [of i] by auto
  show ?case unfolding step using h1 h2 inside outside by blast
qed

text \<open>
  \<open>yy\<close> copies of the row of \<open>W\<close> pixels at \<open>ysrc\<close>, written downwards from
  \<open>base + yy * W\<close>. The row that is read lies outside the rows that are written, or it is
  the lowest of them, which is then copied onto itself.
\<close>

lemma Expand_vertical_spec:
  assumes "base + yy * W \<le> length mem" "ysrc + W \<le> length mem"
    and "ysrc + W \<le> base \<or> base + yy * W \<le> ysrc \<or> ysrc = base"
  shows "fst (Expand_vertical W W yy ysrc (base + yy * W) mem) = base
    \<and> length (snd (Expand_vertical W W yy ysrc (base + yy * W) mem)) = length mem
    \<and> (\<forall>t < yy. \<forall>X < W. snd (Expand_vertical W W yy ysrc (base + yy * W) mem) ! (base + t * W + X)
          = mem ! (ysrc + X))
    \<and> (\<forall>i < length mem. i < base \<or> base + yy * W \<le> i \<longrightarrow>
          snd (Expand_vertical W W yy ysrc (base + yy * W) mem) ! i = mem ! i)"
  using assms
proof (induction yy arbitrary: mem)
  case 0
  then show ?case by simp
next
  case (Suc yy)
  let ?d = "base + yy * W"
  let ?mem1 = "memcpy mem ?d ysrc W"
  have step: "Expand_vertical W W (Suc yy) ysrc (base + Suc yy * W) mem
      = Expand_vertical W W yy ysrc ?d ?mem1"
    by simp
  have m1: "\<And>i. i < length mem \<Longrightarrow>
      ?mem1 ! i = (if ?d \<le> i \<and> i < ?d + W then mem ! (ysrc + (i - ?d)) else mem ! i)"
    by (rule memcpy_nth)
  have src1: "?mem1 ! (ysrc + X) = mem ! (ysrc + X)" if "X < W" for X
  proof -
    have "ysrc + X < length mem" using that Suc.prems(2) by simp
    moreover have "yy * W \<le> X \<longrightarrow> yy * W = 0" using that by (cases yy) auto
    ultimately show ?thesis using m1 [of "ysrc + X"] Suc.prems(3) that by auto
  qed
  have pre: "?d \<le> length ?mem1" "ysrc + W \<le> length ?mem1"
    "ysrc + W \<le> base \<or> ?d \<le> ysrc \<or> ysrc = base"
    using Suc.prems by (auto simp: memcpy_length)
  from Suc.IH [OF pre]
  have v1: "fst (Expand_vertical W W yy ysrc ?d ?mem1) = base"
    and v2: "length (snd (Expand_vertical W W yy ysrc ?d ?mem1)) = length mem"
    and v3: "\<And>t X. t < yy \<Longrightarrow> X < W \<Longrightarrow>
      snd (Expand_vertical W W yy ysrc ?d ?mem1) ! (base + t * W + X) = ?mem1 ! (ysrc + X)"
    and v4: "\<And>i. i < length mem \<Longrightarrow> i < base \<or> ?d \<le> i \<Longrightarrow>
      snd (Expand_vertical W W yy ysrc ?d ?mem1) ! i = ?mem1 ! i"
    by (auto simp: memcpy_length)
  have inside: "snd (Expand_vertical W W yy ysrc ?d ?mem1) ! (base + t * W + X) = mem ! (ysrc + X)"
    if "t < Suc yy" "X < W" for t X
  proof (cases "t < yy")
    case True
    then show ?thesis using v3 [OF True that(2)] src1 [OF that(2)] by simp
  next
    case False
    then have t: "t = yy" using that(1) by simp
    have "?d + X < length mem" using that(2) Suc.prems(1) by simp
    then show ?thesis unfolding t using v4 [of "?d + X"] m1 [of "?d + X"] that(2) by simp
  qed
  have outside: "snd (Expand_vertical W W yy ysrc ?d ?mem1) ! i = mem ! i"
    if "i < length mem" "i < base \<or> base + Suc yy * W \<le> i" for i
    using that v4 [of i] m1 [of i] by auto
  show ?case unfolding step using v1 v2 inside outside by blast
qed


text \<open>
  The whole loop, with \<open>sy\<close> source rows still to expand. Everything below
  \<open>sy * scaley\<close> rows is as it was, so the source rows that are left are intact; and
  every row \<open>Y\<close> of the result that the loop has written holds source row \<open>Y div scaley\<close>,
  each pixel \<open>scalex\<close> times.
\<close>

lemma Expand_rows_spec:
  assumes "0 < scalex" "0 < scaley" "W = sw * scalex" "sy * scaley * W \<le> length mem"
  shows "length (Expand_rows W W scalex scaley sw sy ((sy - 1) * W) (sy * scaley * W) mem) = length mem
    \<and> (\<forall>Y < sy * scaley. \<forall>X < W.
          Expand_rows W W scalex scaley sw sy ((sy - 1) * W) (sy * scaley * W) mem ! (Y * W + X)
            = mem ! ((Y div scaley) * W + X div scalex))
    \<and> (\<forall>i < length mem. sy * scaley * W \<le> i \<longrightarrow>
          Expand_rows W W scalex scaley sw sy ((sy - 1) * W) (sy * scaley * W) mem ! i = mem ! i)"
  using assms(4)
proof (induction sy arbitrary: mem)
  case 0
  then show ?case by simp
next
  case (Suc sy)
  let ?src = "sy * W"
  let ?lo = "sy * scaley * W"
  let ?top = "?lo + (scaley - 1) * W"
  let ?dest = "Suc sy * scaley * W"
  have dest: "?dest = ?top + W" "?dest = ?lo + scaley * W"
    using assms(2) by (cases scaley, simp_all add: algebra_simps)+
  have src_lo: "?src \<le> ?lo" using assms(2) by simp
  have len: "?dest \<le> length mem" using Suc.prems by simp
  have srcW: "?src + W \<le> length mem"
  proof -
    have "Suc sy * 1 \<le> Suc sy * scaley" using assms(2) by (intro mult_le_mono2) simp
    then have "Suc sy * W \<le> Suc sy * scaley * W" by (intro mult_le_mono1) simp
    then show ?thesis using len by simp
  qed
  have "\<exists>mem2. Expand_rows W W scalex scaley sw (Suc sy) ?src ?dest mem
        = Expand_rows W W scalex scaley sw sy (?src - W) ?lo mem2
      \<and> length mem2 = length mem
      \<and> (\<forall>t < scaley. \<forall>X < W. mem2 ! (?lo + t * W + X) = mem ! (?src + X div scalex))
      \<and> (\<forall>i < length mem. i < ?lo \<or> ?dest \<le> i \<longrightarrow> mem2 ! i = mem ! i)"
  proof (cases "scalex = 1")
    case True
    let ?v = "Expand_vertical W W scaley ?src (?lo + scaley * W) mem"
    have disj: "?src + W \<le> ?lo \<or> ?lo + scaley * W \<le> ?src \<or> ?src = ?lo"
    proof (cases "sy = 0 \<or> scaley = 1")
      case True
      then show ?thesis by auto
    next
      case False
      then have "2 \<le> scaley" "1 \<le> sy" using assms(2) by simp_all
      then have "sy + 1 \<le> sy * scaley"
        by (metis One_nat_def Suc_1 add.commute mult_2_right mult_le_mono2 nat_add_left_cancel_le
            order_trans plus_1_eq_Suc)
      then have "(sy + 1) * W \<le> sy * scaley * W" by (rule mult_le_mono1)
      then show ?thesis by simp
    qed
    have vlen: "?lo + scaley * W \<le> length mem" using len dest(2) by simp
    note V = Expand_vertical_spec [OF vlen srcW disj]
    have v1: "fst ?v = ?lo" and v2: "length (snd ?v) = length mem"
      and v3: "\<forall>t < scaley. \<forall>X < W. snd ?v ! (?lo + t * W + X) = mem ! (?src + X)"
      and v4: "\<forall>i < length mem. i < ?lo \<or> ?lo + scaley * W \<le> i \<longrightarrow> snd ?v ! i = mem ! i"
      using V by blast+
    have "Expand_rows W W scalex scaley sw (Suc sy) ?src ?dest mem
        = Expand_rows W W scalex scaley sw sy (?src - W) ?lo (snd ?v)"
      unfolding dest(2) using True v1 by (simp add: case_prod_beta)
    then show ?thesis using v2 v3 v4 True dest(2) by auto
  next
    case False
    let ?h = "Expand_horizontal scalex sw ?src (?top + W) mem"
    have Weq: "sw * scalex = W" using assms(3) by simp
    have src_top: "?src \<le> ?top" using src_lo by (rule trans_le_add1)
    have hlen: "?top + sw * scalex \<le> length mem" unfolding Weq using len dest(1) by simp
    note H = Expand_horizontal_spec [OF assms(1) src_top hlen, unfolded Weq]
    have h1: "fst ?h = ?top" and h2: "length (snd ?h) = length mem"
      and h3: "\<forall>j < W. snd ?h ! (?top + j) = mem ! (?src + j div scalex)"
      and h4: "\<forall>i < length mem. i < ?top \<or> ?top + W \<le> i \<longrightarrow> snd ?h ! i = mem ! i"
      using H by blast+
    let ?v = "Expand_vertical W W (scaley - 1) ?top ?top (snd ?h)"
    have vlen: "?lo + (scaley - 1) * W \<le> length (snd ?h)" "?top + W \<le> length (snd ?h)"
      using h2 len dest(1) by simp_all
    have vdisj: "?top + W \<le> ?lo \<or> ?lo + (scaley - 1) * W \<le> ?top \<or> ?top = ?lo" by simp
    note V = Expand_vertical_spec [OF vlen vdisj, unfolded h2]
    have v1: "fst ?v = ?lo" and v2: "length (snd ?v) = length mem"
      and v3: "\<forall>t < scaley - 1. \<forall>X < W. snd ?v ! (?lo + t * W + X) = snd ?h ! (?top + X)"
      and v4: "\<forall>i < length mem. i < ?lo \<or> ?top \<le> i \<longrightarrow> snd ?v ! i = snd ?h ! i"
      using V by blast+
    have eq: "Expand_rows W W scalex scaley sw (Suc sy) ?src ?dest mem
        = Expand_rows W W scalex scaley sw sy (?src - W) ?lo (snd ?v)"
      unfolding dest(1) using False h1 v1 by (simp add: case_prod_beta)
    have block: "snd ?v ! (?lo + t * W + X) = mem ! (?src + X div scalex)"
      if "t < scaley" "X < W" for t X
    proof (cases "t < scaley - 1")
      case True
      then show ?thesis using v3 h3 that(2) by simp
    next
      case False
      then have t: "t = scaley - 1" using that(1) by simp
      have "?top + X < length mem" using that(2) len dest(1) by simp
      then show ?thesis unfolding t using v4 h3 that(2) by simp
    qed
    have rest: "snd ?v ! i = mem ! i" if "i < length mem" "i < ?lo \<or> ?dest \<le> i" for i
      using that v4 h4 dest(1) by auto
    show ?thesis using eq v2 block rest by blast
  qed
  then obtain mem2 where
    eq: "Expand_rows W W scalex scaley sw (Suc sy) ?src ?dest mem
        = Expand_rows W W scalex scaley sw sy (?src - W) ?lo mem2"
    and len2: "length mem2 = length mem"
    and block: "\<And>t X. t < scaley \<Longrightarrow> X < W \<Longrightarrow> mem2 ! (?lo + t * W + X) = mem ! (?src + X div scalex)"
    and rest: "\<And>i. i < length mem \<Longrightarrow> i < ?lo \<or> ?dest \<le> i \<Longrightarrow> mem2 ! i = mem ! i"
    by blast
  have srcW': "?src - W = (sy - 1) * W" by (simp add: diff_mult_distrib)
  have "?lo \<le> length mem2" using len2 len dest(2) by simp
  from Suc.IH [OF this]
  have r1: "length (Expand_rows W W scalex scaley sw sy ((sy - 1) * W) ?lo mem2) = length mem"
    and r2: "\<And>Y X. Y < sy * scaley \<Longrightarrow> X < W \<Longrightarrow>
      Expand_rows W W scalex scaley sw sy ((sy - 1) * W) ?lo mem2 ! (Y * W + X)
        = mem2 ! ((Y div scaley) * W + X div scalex)"
    and r3: "\<And>i. i < length mem \<Longrightarrow> ?lo \<le> i \<Longrightarrow>
      Expand_rows W W scalex scaley sw sy ((sy - 1) * W) ?lo mem2 ! i = mem2 ! i"
    using len2 by simp_all
  have inside: "Expand_rows W W scalex scaley sw sy ((sy - 1) * W) ?lo mem2 ! (Y * W + X)
      = mem ! ((Y div scaley) * W + X div scalex)"
    if Y: "Y < Suc sy * scaley" and X: "X < W" for Y X
  proof (cases "Y < sy * scaley")
    case True
    have q: "Y div scaley < sy" using True assms(2) by (simp add: less_mult_imp_div_less)
    have "X div scalex \<le> X" by simp
    then have "(Y div scaley) * W + X div scalex < (Y div scaley) * W + W" using X by linarith
    also have "\<dots> = Suc (Y div scaley) * W" by simp
    also have "\<dots> \<le> sy * W" using q by (intro mult_le_mono1) simp
    finally have idx: "(Y div scaley) * W + X div scalex < ?src" .
    then have "(Y div scaley) * W + X div scalex < ?lo" using src_lo by linarith
    moreover have "(Y div scaley) * W + X div scalex < length mem" using idx srcW by linarith
    ultimately show ?thesis using r2 [OF True X] rest by simp
  next
    case False
    define t where "t = Y - sy * scaley"
    have t: "t < scaley" "Y = sy * scaley + t" using False Y by (simp_all add: t_def)
    have q: "Y div scaley = sy" unfolding t(2) using t(1) by simp
    have i: "Y * W + X = ?lo + t * W + X" unfolding t(2) by (simp add: algebra_simps)
    have "t * W + X < scaley * W"
    proof -
      have "t * W + X < t * W + W" using X by simp
      also have "\<dots> = Suc t * W" by simp
      also have "\<dots> \<le> scaley * W" using t(1) by (intro mult_le_mono1) simp
      finally show ?thesis .
    qed
    then have "?lo + t * W + X < length mem" using len dest(2) by linarith
    then show ?thesis
      unfolding i q using r3 [of "?lo + t * W + X"] block [OF t(1) X] by simp
  qed
  have outside: "Expand_rows W W scalex scaley sw sy ((sy - 1) * W) ?lo mem2 ! i = mem ! i"
    if "i < length mem" "?dest \<le> i" for i
    using that r3 [of i] rest [of i] dest(2) by simp
  show ?case
    unfolding diff_Suc_1 eq srcW' using r1 inside outside by blast
qed


text \<open>The buffer as pixel slots, and back.\<close>

lemma slots_length: "0 < bpp \<Longrightarrow> length bytes = n * bpp \<Longrightarrow> length (slots bpp bytes) = n"
  by (simp add: slots_def)

lemma slots_nth:
  "0 < bpp \<Longrightarrow> length bytes = n * bpp \<Longrightarrow> k < n \<Longrightarrow>
    slots bpp bytes ! k = take bpp (drop (k * bpp) bytes)"
  by (simp add: slots_def)

lemma slots_nth_length:
  assumes "0 < bpp" "length bytes = n * bpp" "k < n"
  shows "length (slots bpp bytes ! k) = bpp"
proof -
  have "Suc k * bpp \<le> n * bpp" using assms(3) by (intro mult_le_mono1) simp
  then have "bpp \<le> n * bpp - k * bpp" by simp
  then show ?thesis using assms by (simp add: slots_nth)
qed

lemma concat_slots_length: "\<forall>s \<in> set ss. length s = bpp \<Longrightarrow> length (concat ss) = length ss * bpp"
  by (induction ss) simp_all

lemma concat_slots_nth:
  "\<forall>s \<in> set ss. length s = bpp \<Longrightarrow> k < length ss \<Longrightarrow>
    take bpp (drop (k * bpp) (concat ss)) = ss ! k"
proof (induction ss arbitrary: k)
  case Nil
  then show ?case by simp
next
  case (Cons s ss)
  show ?case
  proof (cases k)
    case 0
    then show ?thesis using Cons.prems by simp
  next
    case (Suc k')
    have "drop (Suc k' * bpp) (s @ concat ss) = drop (k' * bpp) (concat ss)"
      using Cons.prems(1) by simp
    then show ?thesis using Suc Cons by simp
  qed
qed

text \<open>
  Claim C6. \<open>Expand(1, 1)\<close> returns the bitmap as it is. For scales of at least 1 and a
  well-formed bitmap of 1, 2 or 4 bytes per pixel whose \<open>Width\<close> and \<open>Height\<close> are the
  scaled dimensions \<open>sw * scalex\<close> and \<open>sh * scaley\<close>, \<open>Expand\<close> keeps the dimensions and
  the size of the buffer, and the pixel of the result in column \<open>x * scalex + i\<close> of row
  \<open>y * scaley + j\<close>, for \<open>i < scalex\<close> and \<open>j < scaley\<close>, is the pixel that the bitmap
  had in column \<open>x\<close> of row \<open>y\<close> before, for every \<open>x < sw\<close> and \<open>y < sh\<close>.
\<close>

theorem Expand_replicates_pixels:
  assumes "ChunkyBitmap_ok bm" "1 \<le> scalex" "1 \<le> scaley"
    and "Width bm = sw * scalex" "Height bm = sh * scaley"
  shows "Expand bm 1 1 = Some bm
    \<and> (\<exists>out. Expand bm scalex scaley = Some out
          \<and> Width out = Width bm \<and> Height out = Height bm \<and> Pitch out = Pitch bm
          \<and> BytesPerPixel out = BytesPerPixel bm \<and> length (Pixels out) = length (Pixels bm)
          \<and> (\<forall>x < sw. \<forall>y < sh. \<forall>i < scalex. \<forall>j < scaley.
                pixel_at out (x * scalex + i) (y * scaley + j) = pixel_at bm x y))"
proof (cases "scalex = 1 \<and> scaley = 1")
  case True
  then show ?thesis by (simp add: Expand_def)
next
  case False
  let ?W = "Width bm" and ?H = "Height bm" and ?bpp = "BytesPerPixel bm"
  let ?mem = "slots ?bpp (Pixels bm)"
  let ?res = "Expand_rows ?W ?W scalex scaley sw sh ((sh - 1) * ?W) (sh * scaley * ?W) ?mem"
  let ?out = "bm\<lparr>Pixels := unslots ?res\<rparr>"
  have sc: "0 < scalex" "0 < scaley" using assms(2,3) by simp_all
  have bpp: "0 < ?bpp" "?bpp = 1 \<or> ?bpp = 2 \<or> ?bpp = 4"
    and pitch: "Pitch bm = ?W * ?bpp" and W0: "0 < ?W"
    and bytes: "length (Pixels bm) = (?H * ?W) * ?bpp"
    using assms(1) by (auto simp: ChunkyBitmap_ok_def algebra_simps)
  have memlen: "length ?mem = ?H * ?W" using bpp(1) bytes by (rule slots_length)
  have sw: "?W div scalex = sw" and sh: "?H div scaley = sh"
    using assms(4,5) sc by simp_all
  have n: "Pitch bm div ?bpp = ?W" "(sh - 1) * Pitch bm div ?bpp = (sh - 1) * ?W"
    "?H * Pitch bm div ?bpp = sh * scaley * ?W"
    using bpp(1) assms(5) by (simp_all add: pitch mult.assoc [symmetric])
  have c2: "\<not> (scalex = 0 \<or> scaley = 0)" using sc by simp
  have "Expand bm scalex scaley = Some (bm\<lparr>Pixels := unslots
      (Expand_rows ?W (Pitch bm div ?bpp) scalex scaley (?W div scalex) (?H div scaley)
        ((?H div scaley - 1) * Pitch bm div ?bpp) (?H * Pitch bm div ?bpp) ?mem)\<rparr>)"
    by (simp only: Expand_def Let_def if_not_P [OF False] if_not_P [OF c2] if_P [OF bpp(2)])
  then have run: "Expand bm scalex scaley = Some ?out"
    by (simp only: sw sh n)
  have pre: "sh * scaley * ?W \<le> length ?mem" using memlen assms(5) by simp
  note R = Expand_rows_spec [OF sc assms(4) pre]
  have reslen: "length ?res = ?H * ?W" using R memlen by simp
  have cell: "?res ! (Y * ?W + X) = ?mem ! ((Y div scaley) * ?W + X div scalex)"
    if "Y < ?H" "X < ?W" for Y X
    using R that assms(5) by simp
  have inb: "(Y div scaley) * ?W + X div scalex < ?H * ?W" if "Y < ?H" "X < ?W" for Y X
  proof -
    have "Y div scaley \<le> Y" "X div scalex \<le> X" by simp_all
    then have "(Y div scaley) * ?W + X div scalex < (Y div scaley) * ?W + ?W" using that(2) by linarith
    also have "\<dots> = Suc (Y div scaley) * ?W" by simp
    also have "\<dots> \<le> ?H * ?W"
    proof (intro mult_le_mono1)
      show "Suc (Y div scaley) \<le> ?H" using \<open>Y div scaley \<le> Y\<close> that(1) by linarith
    qed
    finally show ?thesis .
  qed
  have reslot: "\<forall>s \<in> set ?res. length s = ?bpp"
  proof
    fix s assume "s \<in> set ?res"
    then obtain i where i: "i < ?H * ?W" "s = ?res ! i"
      using reslen by (auto simp: in_set_conv_nth)
    define Y X where "Y = i div ?W" and "X = i mod ?W"
    have YX: "Y < ?H" "X < ?W" "i = Y * ?W + X"
      using i(1) W0 by (simp_all add: Y_def X_def less_mult_imp_div_less)
    show "length s = ?bpp"
      unfolding i(2) YX(3) cell [OF YX(1,2)]
      using slots_nth_length [OF bpp(1) bytes inb [OF YX(1,2)]] .
  qed
  have outlen: "length (Pixels ?out) = length (Pixels bm)"
    using concat_slots_length [OF reslot] reslen bytes by (simp add: unslots_def)
  have px: "pixel_at ?out (x * scalex + i) (y * scaley + j) = pixel_at bm x y"
    if "x < sw" "y < sh" "i < scalex" "j < scaley" for x y i j
  proof -
    let ?X = "x * scalex + i" and ?Y = "y * scaley + j"
    have X: "?X < ?W"
    proof -
      have "?X < x * scalex + scalex" using that(3) by simp
      also have "\<dots> = Suc x * scalex" by simp
      also have "\<dots> \<le> sw * scalex" using that(1) by (intro mult_le_mono1) simp
      finally show ?thesis using assms(4) by simp
    qed
    have Y: "?Y < ?H"
    proof -
      have "?Y < y * scaley + scaley" using that(4) by simp
      also have "\<dots> = Suc y * scaley" by simp
      also have "\<dots> \<le> sh * scaley" using that(2) by (intro mult_le_mono1) simp
      finally show ?thesis using assms(5) by simp
    qed
    have q: "?X div scalex = x" "?Y div scaley = y" using that(3,4) by simp_all
    have k: "?Y * ?W + ?X < length ?res"
    proof -
      have "?Y * ?W + ?X < ?Y * ?W + ?W" using X by simp
      also have "\<dots> = Suc ?Y * ?W" by simp
      also have "\<dots> \<le> ?H * ?W" using Y by (intro mult_le_mono1) simp
      finally show ?thesis using reslen by simp
    qed
    have src: "y * ?W + x < ?H * ?W" using inb [OF Y X] q by simp
    have "pixel_at ?out ?X ?Y = take ?bpp (drop ((?Y * ?W + ?X) * ?bpp) (concat ?res))"
      by (simp add: pixel_at_def pitch unslots_def algebra_simps)
    also have "\<dots> = ?res ! (?Y * ?W + ?X)" using reslot k by (rule concat_slots_nth)
    also have "\<dots> = ?mem ! (y * ?W + x)" using cell [OF Y X] q by simp
    also have "\<dots> = take ?bpp (drop ((y * ?W + x) * ?bpp) (Pixels bm))"
      using bpp(1) bytes src by (rule slots_nth)
    also have "\<dots> = pixel_at bm x y"
      by (simp add: pixel_at_def pitch algebra_simps)
    finally show ?thesis .
  qed
  have "Expand bm 1 1 = Some bm" by (simp add: Expand_def)
  then show ?thesis using run outlen px by simp
qed


text \<open>
  Witness for C6: two pixels of two bytes in the first of two rows of four, expanded by 2
  in both directions.
\<close>

theorem Expand_replicates_pixels_witness:
  "Expand \<lparr>Width = 4, Height = 2, Pitch = 8, BytesPerPixel = 2,
       Pixels = [1, 2, 3, 4, 9, 9, 9, 9, 9, 9, 9, 9, 9, 9, 9, 9]\<rparr> 2 2
   = Some \<lparr>Width = 4, Height = 2, Pitch = 8, BytesPerPixel = 2,
       Pixels = [1, 2, 1, 2, 3, 4, 3, 4, 1, 2, 1, 2, 3, 4, 3, 4]\<rparr>
   \<and> ChunkyBitmap_ok \<lparr>Width = 4, Height = 2, Pitch = 8, BytesPerPixel = 2,
       Pixels = [1, 2, 3, 4, 9, 9, 9, 9, 9, 9, 9, 9, 9, 9, 9, 9]\<rparr>
   \<and> pixel_at \<lparr>Width = 4, Height = 2, Pitch = 8, BytesPerPixel = 2,
       Pixels = [1, 2, 3, 4, 9, 9, 9, 9, 9, 9, 9, 9, 9, 9, 9, 9]\<rparr> 1 0 = [3, 4]"
proof -
  let ?bm = "\<lparr>Width = 4, Height = 2, Pitch = 8, BytesPerPixel = 2,
       Pixels = [1, 2, 3, 4, 9, 9, 9, 9, 9, 9, 9, 9, 9, 9, 9, 9]\<rparr>"
  have ok: "ChunkyBitmap_ok ?bm" by (simp add: ChunkyBitmap_ok_def)
  have dims: "Width ?bm = 2 * 2" "Height ?bm = 1 * 2" by simp_all
  have run: "Expand ?bm 2 2
      = Some \<lparr>Width = 4, Height = 2, Pitch = 8, BytesPerPixel = 2,
       Pixels = [1, 2, 1, 2, 3, 4, 3, 4, 1, 2, 1, 2, 3, 4, 3, 4]\<rparr>"
    by code_simp
  have px: "pixel_at ?bm 1 0 = [3, 4]" by (simp add: pixel_at_def)
  from Expand_replicates_pixels [OF ok _ _ dims]
  have "\<exists>out. Expand ?bm 2 2 = Some out \<and> Width out = 4" by auto
  with run ok px show ?thesis by simp
qed

section \<open>Planar to chunky\<close>

declare ToChunky_rotate.simps [simp del]
declare ToChunky_overflow.simps [simp del]
declare ToChunky_rows.simps [simp del]
declare ToChunky_serial_row.simps [simp del]
declare ToChunky_serial.simps [simp del]

text \<open>The constructor and \<open>FillBitplane\<close> keep the invariant.\<close>

lemma PlanarBitmap_new_ok: "PlanarBitmap_new w h n = Some p \<Longrightarrow> PlanarBitmap_ok p"
  by (auto simp: PlanarBitmap_new_def PlanarBitmap_ok_def Let_def split: if_splits)

lemma memset_length: "length (memset mem q v n) = length mem"
  by (simp add: memset_def)

lemma memset_nth:
  "i < length mem \<Longrightarrow> memset mem q v n ! i = (if q \<le> i \<and> i < q + n then v else mem ! i)"
  by (simp add: memset_def)

lemma FillBitplane_ok:
  assumes "PlanarBitmap_ok p" "FillBitplane p plane setv = Some p'"
  shows "PlanarBitmap_ok p'"
proof -
  let ?S = "PlanarBitmap.Pitch p * PlanarBitmap.Height p"
  from assms(2) have pl: "plane < NumPlanes p"
    by (auto simp: FillBitplane_def split: if_splits)
  then have "plane < 32" using assms(1) by (simp add: PlanarBitmap_ok_def)
  then have "Planes p ! plane = Some (?S * plane)"
    using assms(1) pl by (simp add: PlanarBitmap_ok_def)
  then have p': "p' = p\<lparr>PlaneData := memset (PlaneData p) (?S * plane) (- of_bool setv) ?S\<rparr>"
    using assms(2) pl by (simp add: FillBitplane_def)
  have "?S * plane + ?S = ?S * Suc plane" by simp
  also have "\<dots> \<le> ?S * NumPlanes p" using pl by (intro mult_le_mono2) simp
  finally have top: "?S * plane + ?S \<le> ?S * NumPlanes p" .
  show ?thesis
    using assms(1) top unfolding p' PlanarBitmap_ok_def
    by (auto simp: memset_length memset_nth)
qed

text \<open>Shifts and masks on natural numbers.\<close>

lemma and_7_mod_8: "(x :: nat) AND 7 = x mod 8"
proof -
  have "x AND mask 3 = take_bit 3 x" by (simp add: take_bit_eq_mask)
  then show ?thesis by (simp add: take_bit_eq_mod mask_eq_exp_minus_1)
qed


text \<open>
  The loop over the planes: the planes that are read fill the low bits, plane 0 lowest, and
  what was in \<open>pixel\<close> is shifted above them.
\<close>

lemma ToChunky_pixel_bits:
  fixes pixel :: "'a::len word"
  assumes "\<forall>i < n. Planes p ! i = Some (S * i)"
  shows "\<exists>v. ToChunky_pixel p n byte bitn pixel = Some v
    \<and> (\<forall>j. bit v j \<longleftrightarrow> j < LENGTH('a)
          \<and> (if j < n then bit (PlaneData p ! (S * j + byte)) bitn else bit pixel (j - n)))"
  using assms
proof (induction n arbitrary: pixel)
  case 0
  then show ?case by (auto dest: bit_imp_le_length)
next
  case (Suc n)
  let ?b = "PlaneData p ! (S * n + byte)"
  let ?pixel1 = "push_bit 1 pixel OR (ucast (drop_bit bitn ?b) AND 1)"
  have pl: "Planes p ! n = Some (S * n)" and rest: "\<forall>i < n. Planes p ! i = Some (S * i)"
    using Suc.prems by simp_all
  have step: "ToChunky_pixel p (Suc n) byte bitn pixel = ToChunky_pixel p n byte bitn ?pixel1"
    using pl by simp
  from Suc.IH [OF rest, of ?pixel1] obtain v where
    v: "ToChunky_pixel p n byte bitn ?pixel1 = Some v"
    and bits: "\<And>j. bit v j \<longleftrightarrow> j < LENGTH('a)
        \<and> (if j < n then bit (PlaneData p ! (S * j + byte)) bitn else bit ?pixel1 (j - n))"
    by blast
  have p1: "bit ?pixel1 m \<longleftrightarrow> m < LENGTH('a) \<and> (if m = 0 then bit ?b bitn else bit pixel (m - 1))"
    for m
  proof -
    have "bit ?pixel1 m \<longleftrightarrow> bit (push_bit 1 pixel) m
        \<or> bit (ucast (drop_bit bitn ?b) :: 'a word) m \<and> bit (1 :: 'a word) m"
      by (simp only: bit_or_iff bit_and_iff)
    also have "\<dots> \<longleftrightarrow> (1 \<le> m \<and> m < LENGTH('a) \<and> bit pixel (m - 1))
        \<or> (m = 0 \<and> bit ?b bitn)"
      by (cases "m = 0")
        (simp_all only: bit_push_bit_iff possible_bit_word bit_1_iff bit_ucast_iff
          bit_drop_bit_eq comp_def, simp_all)
    finally show ?thesis by (cases "m = 0") auto
  qed
  have "bit v j \<longleftrightarrow> j < LENGTH('a)
        \<and> (if j < Suc n then bit (PlaneData p ! (S * j + byte)) bitn else bit pixel (j - Suc n))"
    for j
  proof (cases "j < n")
    case True
    then show ?thesis using bits [of j] by simp
  next
    case False
    then show ?thesis
      using bits [of j] p1 [of "j - n"] by (cases "j = n") (auto simp: less_Suc_eq)
  qed
  then show ?case unfolding step using v by blast
qed

text \<open>Read from \<open>pixel = 0\<close> on a well-formed bitmap, the loop returns the pixel of the spec.\<close>

lemma horner_sum_bits_8:
  "n \<le> 8 \<Longrightarrow> bit (horner_sum of_bool 2 (map f [0..<n]) :: 8 word) j \<longleftrightarrow> j < n \<and> f j"
  by (auto simp: bit_horner_sum_bit_word_iff)

lemma planar_pixel_bits:
  "NumPlanes p \<le> 8 \<Longrightarrow>
    bit (planar_pixel p x y) i \<longleftrightarrow> i < NumPlanes p
      \<and> bit (PlaneData p ! (PlanarBitmap.Pitch p * PlanarBitmap.Height p * i
            + (y * PlanarBitmap.Pitch p + x div 8))) (7 - x mod 8)"
  by (simp add: planar_pixel_def horner_sum_bits_8)

lemma Planes_nth:
  "PlanarBitmap_ok p \<Longrightarrow> i < NumPlanes p \<Longrightarrow>
    Planes p ! i = Some (PlanarBitmap.Pitch p * PlanarBitmap.Height p * i)"
  by (simp add: PlanarBitmap_ok_def)

lemma ToChunky_pixel_planar:
  assumes "PlanarBitmap_ok p" "NumPlanes p \<le> 8"
  shows "ToChunky_pixel p (NumPlanes p) (y * PlanarBitmap.Pitch p + x div 8) (7 - x mod 8) 0
    = Some (planar_pixel p x y)"
proof -
  let ?S = "PlanarBitmap.Pitch p * PlanarBitmap.Height p"
  let ?byte = "y * PlanarBitmap.Pitch p + x div 8"
  have "\<forall>i < NumPlanes p. Planes p ! i = Some (?S * i)"
    using assms(1) by (simp add: Planes_nth)
  from ToChunky_pixel_bits [OF this, of ?byte "7 - x mod 8" "0 :: 8 word"]
  obtain v where vb: "ToChunky_pixel p (NumPlanes p) ?byte (7 - x mod 8) (0 :: 8 word) = Some v
    \<and> (\<forall>j. bit v j \<longleftrightarrow> j < LENGTH(8)
      \<and> (if j < NumPlanes p then bit (PlaneData p ! (?S * j + ?byte)) (7 - x mod 8)
         else bit (0 :: 8 word) (j - NumPlanes p)))"
    by (elim exE) (rule that)
  then have v: "ToChunky_pixel p (NumPlanes p) ?byte (7 - x mod 8) 0 = Some v" by (rule conjunct1)
  from vb have bits: "bit v j \<longleftrightarrow> j < LENGTH(8)
      \<and> (if j < NumPlanes p then bit (PlaneData p ! (?S * j + ?byte)) (7 - x mod 8)
         else bit (0 :: 8 word) (j - NumPlanes p))" for j
    by (rule conjunct2 [THEN spec])
  have "v = planar_pixel p x y"
  proof (rule bit_word_eqI)
    fix j assume "j < LENGTH(8)"
    then show "bit v j \<longleftrightarrow> bit (planar_pixel p x y) j"
      using bits [of j] assms(2) by (simp add: planar_pixel_bits)
  qed
  then show ?thesis using v by simp
qed

text \<open>
  \<open>rotate8x8\<close> reads all 8 planes of the buffer. On a well-formed bitmap the planes from
  \<open>NumPlanes\<close> on are zero, so its pixel \<open>k\<close> for the byte \<open>g\<close> of row \<open>y\<close> is the pixel
  of the spec in column \<open>8 * g + k\<close>.
\<close>

lemma Pitch_ge: "PlanarBitmap_ok p \<Longrightarrow> PlanarBitmap.Width p div 8 \<le> PlanarBitmap.Pitch p"
  by (simp add: PlanarBitmap_ok_def)

lemma rotate8x8_pixel_planar:
  assumes "PlanarBitmap_ok p" "NumPlanes p \<le> 8" "y < PlanarBitmap.Height p"
    "g < PlanarBitmap.Width p div 8" "k < 8"
  shows "rotate8x8_pixel (PlaneData p) (y * PlanarBitmap.Pitch p + g)
      (PlanarBitmap.Pitch p * PlanarBitmap.Height p) k = planar_pixel p (8 * g + k) y"
proof (rule bit_word_eqI)
  fix j assume "j < LENGTH(8)"
  then have j: "j < 8" by simp
  let ?S = "PlanarBitmap.Pitch p * PlanarBitmap.Height p"
  let ?o = "y * PlanarBitmap.Pitch p + g"
  have q: "(8 * g + k) div 8 = g" "(8 * g + k) mod 8 = k" using assms(5) by simp_all
  have off: "?o < ?S"
  proof -
    have "g < PlanarBitmap.Pitch p" using assms(4) Pitch_ge [OF assms(1)] by linarith
    then have "?o < y * PlanarBitmap.Pitch p + PlanarBitmap.Pitch p" by simp
    also have "\<dots> = Suc y * PlanarBitmap.Pitch p" by simp
    also have "\<dots> \<le> PlanarBitmap.Height p * PlanarBitmap.Pitch p"
      using assms(3) by (intro mult_le_mono1) simp
    finally show ?thesis by (simp add: mult.commute)
  qed
  have zero: "PlaneData p ! (?o + j * ?S) = 0" if "NumPlanes p \<le> j"
  proof -
    have "?o + j * ?S < ?S + j * ?S" using off by simp
    also have "\<dots> = ?S * Suc j" by simp
    also have "\<dots> \<le> ?S * 8" using j by (intro mult_le_mono2) simp
    finally have "?o + j * ?S < length (PlaneData p)"
      using assms(1,2) by (simp add: PlanarBitmap_ok_def max_def)
    moreover have "?S * NumPlanes p \<le> ?o + j * ?S"
    proof -
      have "?S * NumPlanes p \<le> ?S * j" using that by (intro mult_le_mono2)
      moreover have "?S * j = j * ?S" by (rule mult.commute)
      ultimately show ?thesis by linarith
    qed
    moreover have "\<forall>k < length (PlaneData p). ?S * NumPlanes p \<le> k \<longrightarrow> PlaneData p ! k = 0"
      using assms(1) by (simp add: PlanarBitmap_ok_def)
    ultimately show ?thesis by blast
  qed
  have "bit (rotate8x8_pixel (PlaneData p) ?o ?S k) j \<longleftrightarrow> bit (PlaneData p ! (?o + j * ?S)) (7 - k)"
    using j by (simp add: rotate8x8_pixel_def horner_sum_bits_8)
  also have "\<dots> \<longleftrightarrow> j < NumPlanes p \<and> bit (PlaneData p ! (?S * j + ?o)) (7 - k)"
    using zero by (cases "j < NumPlanes p") (simp_all add: add.commute mult.commute)
  also have "\<dots> \<longleftrightarrow> bit (planar_pixel p (8 * g + k) y) j"
    using assms(2,5) by (simp add: planar_pixel_bits)
  finally show "bit (rotate8x8_pixel (PlaneData p) ?o ?S k) j
      \<longleftrightarrow> bit (planar_pixel p (8 * g + k) y) j" .
qed


text \<open>Writing a run of bytes by a fold of updates.\<close>

lemma fold_update_run:
  "dst + n \<le> length m \<Longrightarrow>
    length (fold (\<lambda>k m. m[dst + k := f k]) [0..<n] m) = length m
    \<and> (\<forall>k < n. fold (\<lambda>k m. m[dst + k := f k]) [0..<n] m ! (dst + k) = f k)
    \<and> (\<forall>i. i < dst \<or> dst + n \<le> i \<longrightarrow> fold (\<lambda>k m. m[dst + k := f k]) [0..<n] m ! i = m ! i)"
proof (induction n)
  case 0
  then show ?case by simp
next
  case (Suc n)
  then show ?case by (auto simp: nth_list_update less_Suc_eq)
qed

lemma rotate8x8_spec:
  assumes "dst + 8 \<le> length dstmem"
  shows "length (rotate8x8 mem src srcstep dstmem dst 1) = length dstmem
    \<and> (\<forall>k < 8. rotate8x8 mem src srcstep dstmem dst 1 ! (dst + k) = rotate8x8_pixel mem src srcstep k)
    \<and> (\<forall>i. i < dst \<or> dst + 8 \<le> i \<longrightarrow> rotate8x8 mem src srcstep dstmem dst 1 ! i = dstmem ! i)"
  using fold_update_run [OF assms, of "rotate8x8_pixel mem src srcstep"]
  by (simp add: rotate8x8_def)

lemma store_pixel_byte: "store_pixel dest out (Suc 0) (pixel :: 8 word) = dest[out := pixel]"
  by (simp add: store_pixel_def)

text \<open>The loop that calls \<open>rotate8x8\<close>, from byte \<open>x\<close> of the row on.\<close>

lemma ToChunky_rotate_spec:
  assumes "n = drop_bit 3 (PlanarBitmap.Width p) - x" "x \<le> drop_bit 3 (PlanarBitmap.Width p)"
    "out + 8 * n \<le> length dest"
  shows "fst (ToChunky_rotate p srcstep inp x out dest) = drop_bit 3 (PlanarBitmap.Width p)
    \<and> fst (snd (ToChunky_rotate p srcstep inp x out dest)) = out + 8 * n
    \<and> length (snd (snd (ToChunky_rotate p srcstep inp x out dest))) = length dest
    \<and> (\<forall>t < n. \<forall>k < 8. snd (snd (ToChunky_rotate p srcstep inp x out dest)) ! (out + 8 * t + k)
          = rotate8x8_pixel (PlaneData p) (inp + (x + t)) srcstep k)
    \<and> (\<forall>i. i < out \<or> out + 8 * n \<le> i \<longrightarrow>
          snd (snd (ToChunky_rotate p srcstep inp x out dest)) ! i = dest ! i)"
  using assms
proof (induction n arbitrary: x out dest)
  case 0
  then have "\<not> x < drop_bit 3 (PlanarBitmap.Width p)" by simp
  then show ?case using 0 by (subst (1 2 3 4 5) ToChunky_rotate.simps) simp
next
  case (Suc n)
  let ?G = "drop_bit 3 (PlanarBitmap.Width p)"
  let ?dest1 = "rotate8x8 (PlaneData p) (inp + x) srcstep dest out 1"
  let ?R = "ToChunky_rotate p srcstep inp (x + 1) (out + 8) ?dest1"
  have lt: "x < ?G" using Suc.prems(1) by simp
  have step: "ToChunky_rotate p srcstep inp x out dest = ?R"
    using lt by (subst ToChunky_rotate.simps) simp
  have "out + 8 \<le> length dest" using Suc.prems(3) by simp
  from rotate8x8_spec [OF this, of "PlaneData p" "inp + x" srcstep]
  have r1: "length ?dest1 = length dest"
    and r2: "\<And>k. k < 8 \<Longrightarrow> ?dest1 ! (out + k) = rotate8x8_pixel (PlaneData p) (inp + x) srcstep k"
    and r3: "\<And>i. i < out \<or> out + 8 \<le> i \<Longrightarrow> ?dest1 ! i = dest ! i"
    by blast+
  have pre: "n = ?G - (x + 1)" "x + 1 \<le> ?G" "out + 8 + 8 * n \<le> length ?dest1"
    using Suc.prems r1 by simp_all
  from Suc.IH [OF pre]
  have i1: "fst ?R = ?G" and i2: "fst (snd ?R) = out + 8 + 8 * n"
    and i3: "length (snd (snd ?R)) = length ?dest1"
    and i4: "\<And>t k. t < n \<Longrightarrow> k < 8 \<Longrightarrow> snd (snd ?R) ! (out + 8 + 8 * t + k)
        = rotate8x8_pixel (PlaneData p) (inp + (x + 1 + t)) srcstep k"
    and i5: "\<And>i. i < out + 8 \<or> out + 8 + 8 * n \<le> i \<Longrightarrow> snd (snd ?R) ! i = ?dest1 ! i"
    by blast+
  have inside: "snd (snd ?R) ! (out + 8 * t + k) = rotate8x8_pixel (PlaneData p) (inp + (x + t)) srcstep k"
    if "t < Suc n" "k < 8" for t k
  proof (cases t)
    case 0
    then show ?thesis using i5 [of "out + k"] r2 [OF that(2)] that(2) by simp
  next
    case (Suc t')
    then show ?thesis using i4 [of t' k] that by (simp add: algebra_simps)
  qed
  have outside: "snd (snd ?R) ! i = dest ! i" if "i < out \<or> out + 8 * Suc n \<le> i" for i
    using that i5 [of i] r3 [of i] by auto
  show ?case unfolding step using i1 i2 i3 r1 inside outside by (simp add: algebra_simps)
qed

text \<open>The loop over the columns that are left, from column \<open>x\<close> on.\<close>

lemma ToChunky_overflow_spec:
  assumes "n = PlanarBitmap.Width p - x" "x \<le> PlanarBitmap.Width p" "out + n \<le> length dest"
    and "\<forall>c. x \<le> c \<and> c < PlanarBitmap.Width p \<longrightarrow>
      ToChunky_pixel p (NumPlanes p) byte (7 - (c AND 7)) 0 = Some (f c)"
  shows "\<exists>dest'. ToChunky_overflow p byte x out dest = Some (out + n, dest')
    \<and> length dest' = length dest
    \<and> (\<forall>t < n. dest' ! (out + t) = f (x + t))
    \<and> (\<forall>i. i < out \<or> out + n \<le> i \<longrightarrow> dest' ! i = dest ! i)"
  using assms
proof (induction n arbitrary: x out dest)
  case 0
  then have "\<not> x < PlanarBitmap.Width p" by simp
  then show ?case by (subst ToChunky_overflow.simps) simp
next
  case (Suc n)
  have lt: "x < PlanarBitmap.Width p" using Suc.prems(1) by simp
  have px: "ToChunky_pixel p (NumPlanes p) byte (7 - (x AND 7)) 0 = Some (f x)"
    using Suc.prems(4) lt by simp
  have step: "ToChunky_overflow p byte x out dest
      = ToChunky_overflow p byte (x + 1) (out + 1) (dest[out := f x])"
    using lt px by (subst ToChunky_overflow.simps) simp
  have pre: "n = PlanarBitmap.Width p - (x + 1)" "x + 1 \<le> PlanarBitmap.Width p"
    "out + 1 + n \<le> length (dest[out := f x])"
    "\<forall>c. x + 1 \<le> c \<and> c < PlanarBitmap.Width p \<longrightarrow>
      ToChunky_pixel p (NumPlanes p) byte (7 - (c AND 7)) 0 = Some (f c)"
    using Suc.prems by simp_all
  from Suc.IH [OF pre] obtain dest' where
    d1: "ToChunky_overflow p byte (x + 1) (out + 1) (dest[out := f x]) = Some (out + 1 + n, dest')"
    and d2: "length dest' = length (dest[out := f x])"
    and d3: "\<And>t. t < n \<Longrightarrow> dest' ! (out + 1 + t) = f (x + 1 + t)"
    and d4: "\<And>i. i < out + 1 \<or> out + 1 + n \<le> i \<Longrightarrow> dest' ! i = dest[out := f x] ! i"
    by blast
  have inside: "dest' ! (out + t) = f (x + t)" if "t < Suc n" for t
  proof (cases t)
    case 0
    then show ?thesis using d4 [of out] Suc.prems(3) by simp
  next
    case (Suc t')
    then show ?thesis using d3 [of t'] that by simp
  qed
  have outside: "dest' ! i = dest ! i" if "i < out \<or> out + Suc n \<le> i" for i
    using that d4 [of i] by auto
  show ?case unfolding step using d1 d2 inside outside by simp
qed

text \<open>A row of the bit-serial method, from column \<open>x\<close> on.\<close>

lemma ToChunky_serial_row_spec:
  assumes "n = PlanarBitmap.Width p - x" "x \<le> PlanarBitmap.Width p" "out + n \<le> length dest"
    and "\<forall>c. x \<le> c \<and> c < PlanarBitmap.Width p \<longrightarrow>
      ToChunky_pixel p (NumPlanes p) (inp + drop_bit 3 c) (7 - (c AND 7)) (0 :: 8 word) = Some (f c)"
  shows "\<exists>dest'. ToChunky_serial_row (0 :: 8 word) p 1 inp x out dest = Some (out + n, dest')
    \<and> length dest' = length dest
    \<and> (\<forall>t < n. dest' ! (out + t) = f (x + t))
    \<and> (\<forall>i. i < out \<or> out + n \<le> i \<longrightarrow> dest' ! i = dest ! i)"
  using assms
proof (induction n arbitrary: x out dest)
  case 0
  then have "\<not> x < PlanarBitmap.Width p" by simp
  then show ?case by (subst ToChunky_serial_row.simps) simp
next
  case (Suc n)
  have lt: "x < PlanarBitmap.Width p" using Suc.prems(1) by simp
  have px: "ToChunky_pixel p (NumPlanes p) (inp + drop_bit 3 x) (7 - (x AND 7)) (0 :: 8 word) = Some (f x)"
    using Suc.prems(4) lt by simp
  have step: "ToChunky_serial_row (0 :: 8 word) p 1 inp x out dest
      = ToChunky_serial_row (0 :: 8 word) p 1 inp (x + 1) (out + 1) (dest[out := f x])"
    using lt px by (subst ToChunky_serial_row.simps) (simp add: store_pixel_byte)
  have pre: "n = PlanarBitmap.Width p - (x + 1)" "x + 1 \<le> PlanarBitmap.Width p"
    "out + 1 + n \<le> length (dest[out := f x])"
    "\<forall>c. x + 1 \<le> c \<and> c < PlanarBitmap.Width p \<longrightarrow>
      ToChunky_pixel p (NumPlanes p) (inp + drop_bit 3 c) (7 - (c AND 7)) (0 :: 8 word) = Some (f c)"
    using Suc.prems by simp_all
  from Suc.IH [OF pre] obtain dest' where
    d1: "ToChunky_serial_row (0 :: 8 word) p 1 inp (x + 1) (out + 1) (dest[out := f x])
        = Some (out + 1 + n, dest')"
    and d2: "length dest' = length (dest[out := f x])"
    and d3: "\<And>t. t < n \<Longrightarrow> dest' ! (out + 1 + t) = f (x + 1 + t)"
    and d4: "\<And>i. i < out + 1 \<or> out + 1 + n \<le> i \<Longrightarrow> dest' ! i = dest[out := f x] ! i"
    by blast
  have inside: "dest' ! (out + t) = f (x + t)" if "t < Suc n" for t
  proof (cases t)
    case 0
    then show ?thesis using d4 [of out] Suc.prems(3) by simp
  next
    case (Suc t')
    then show ?thesis using d3 [of t'] that by simp
  qed
  have outside: "dest' ! i = dest ! i" if "i < out \<or> out + Suc n \<le> i" for i
    using that d4 [of i] by auto
  show ?case unfolding step using d1 d2 inside outside by simp
qed


text \<open>
  One row, both ways: the 8 pixels at a time of \<open>rotate8x8\<close> followed by the columns that
  are left, and the bit-serial method on every column. Either writes the \<open>Width\<close> pixels
  of the spec from \<open>out\<close> on and nothing else.
\<close>

lemma ToChunky_fast_row:
  assumes "PlanarBitmap_ok p" "NumPlanes p \<le> 8" "y < PlanarBitmap.Height p"
    "out + PlanarBitmap.Width p \<le> length dest"
  shows "\<exists>dest'.
      (case ToChunky_rotate p (PlanarBitmap.Pitch p * PlanarBitmap.Height p) (y * PlanarBitmap.Pitch p)
              0 out dest of
         (x, out1, dest1) \<Rightarrow>
           ToChunky_overflow p (y * PlanarBitmap.Pitch p + x) (push_bit 3 x) out1 dest1)
        = Some (out + PlanarBitmap.Width p, dest')
    \<and> length dest' = length dest
    \<and> (\<forall>x < PlanarBitmap.Width p. dest' ! (out + x) = planar_pixel p x y)
    \<and> (\<forall>i. i < out \<or> out + PlanarBitmap.Width p \<le> i \<longrightarrow> dest' ! i = dest ! i)"
proof -
  let ?W = "PlanarBitmap.Width p" and ?P = "PlanarBitmap.Pitch p"
  let ?S = "PlanarBitmap.Pitch p * PlanarBitmap.Height p"
  let ?G = "drop_bit 3 ?W"
  let ?R = "ToChunky_rotate p ?S (y * ?P) 0 out dest"
  have G: "?G = ?W div 8" by (simp add: drop_bit_eq_div)
  have G8: "8 * ?G \<le> ?W" unfolding G by simp
  have rest: "?W - 8 * ?G = ?W mod 8" unfolding G by (simp add: minus_mult_div_eq_mod)
  have pre: "?G = ?G - 0" "0 \<le> ?G" "out + 8 * ?G \<le> length dest"
    using G8 assms(4) by simp_all
  from ToChunky_rotate_spec [OF pre]
  have r1: "fst ?R = ?G" and r2: "fst (snd ?R) = out + 8 * ?G"
    and r3: "length (snd (snd ?R)) = length dest"
    and r4: "\<And>t k. t < ?G \<Longrightarrow> k < 8 \<Longrightarrow>
      snd (snd ?R) ! (out + 8 * t + k) = rotate8x8_pixel (PlaneData p) (y * ?P + (0 + t)) ?S k"
    and r5: "\<And>i. i < out \<or> out + 8 * ?G \<le> i \<Longrightarrow> snd (snd ?R) ! i = dest ! i"
    by blast+
  have fast: "snd (snd ?R) ! (out + x) = planar_pixel p x y" if "x < 8 * ?G" for x
  proof -
    have t: "x div 8 < ?G" "x mod 8 < 8" using that by (simp_all add: less_mult_imp_div_less mult.commute)
    have x: "8 * (x div 8) + x mod 8 = x" by simp
    have "snd (snd ?R) ! (out + 8 * (x div 8) + x mod 8)
        = rotate8x8_pixel (PlaneData p) (y * ?P + (0 + x div 8)) ?S (x mod 8)"
      using t by (rule r4)
    also have "\<dots> = planar_pixel p (8 * (x div 8) + x mod 8) y"
      using rotate8x8_pixel_planar [OF assms(1,2,3) _ t(2), of "x div 8"] t(1) G by simp
    finally show ?thesis using x by (simp add: add.assoc)
  qed
  have px: "\<forall>c. push_bit 3 ?G \<le> c \<and> c < ?W \<longrightarrow>
      ToChunky_pixel p (NumPlanes p) (y * ?P + ?G) (7 - (c AND 7)) 0 = Some (planar_pixel p c y)"
  proof (intro allI impI)
    fix c assume c: "push_bit 3 ?G \<le> c \<and> c < ?W"
    then have "?W div 8 * 8 \<le> c" "c < ?W" by (simp_all add: push_bit_eq_mult G)
    then have "c div 8 = ?W div 8" by (intro div_nat_eqI) (simp_all add: mult.commute)
    then show "ToChunky_pixel p (NumPlanes p) (y * ?P + ?G) (7 - (c AND 7)) 0 = Some (planar_pixel p c y)"
      using ToChunky_pixel_planar [OF assms(1,2), of y c] by (simp add: G and_7_mod_8)
  qed
  have opre: "?W - 8 * ?G = ?W - push_bit 3 ?G" "push_bit 3 ?G \<le> ?W"
    "out + 8 * ?G + (?W - 8 * ?G) \<le> length (snd (snd ?R))"
    using G8 assms(4) r3 by (simp_all add: push_bit_eq_mult mult.commute)
  from ToChunky_overflow_spec [OF opre px] obtain dest' where
    o1: "ToChunky_overflow p (y * ?P + ?G) (push_bit 3 ?G) (out + 8 * ?G) (snd (snd ?R))
        = Some (out + 8 * ?G + (?W - 8 * ?G), dest')"
    and o2: "length dest' = length (snd (snd ?R))"
    and o3: "\<And>t. t < ?W - 8 * ?G \<Longrightarrow> dest' ! (out + 8 * ?G + t) = planar_pixel p (push_bit 3 ?G + t) y"
    and o4: "\<And>i. i < out + 8 * ?G \<or> out + 8 * ?G + (?W - 8 * ?G) \<le> i \<Longrightarrow> dest' ! i = snd (snd ?R) ! i"
    by blast
  have run: "(case ?R of (x, out1, dest1) \<Rightarrow>
      ToChunky_overflow p (y * ?P + x) (push_bit 3 x) out1 dest1) = Some (out + ?W, dest')"
    using o1 r1 r2 G8 by (simp add: case_prod_beta)
  have inside: "dest' ! (out + x) = planar_pixel p x y" if "x < ?W" for x
  proof (cases "x < 8 * ?G")
    case True
    then show ?thesis using o4 [of "out + x"] fast [OF True] by simp
  next
    case False
    then have "x - 8 * ?G < ?W - 8 * ?G" using that by simp
    from o3 [OF this] show ?thesis using False by (simp add: push_bit_eq_mult mult.commute)
  qed
  have outside: "dest' ! i = dest ! i" if "i < out \<or> out + ?W \<le> i" for i
    using that o4 [of i] r5 [of i] G8 by auto
  show ?thesis using run o2 r3 inside outside by auto
qed

lemma ToChunky_serial_row_planar:
  assumes "PlanarBitmap_ok p" "NumPlanes p \<le> 8"
    "out + PlanarBitmap.Width p \<le> length dest"
  shows "\<exists>dest'. ToChunky_serial_row (0 :: 8 word) p 1 (y * PlanarBitmap.Pitch p) 0 out dest
        = Some (out + PlanarBitmap.Width p, dest')
    \<and> length dest' = length dest
    \<and> (\<forall>x < PlanarBitmap.Width p. dest' ! (out + x) = planar_pixel p x y)
    \<and> (\<forall>i. i < out \<or> out + PlanarBitmap.Width p \<le> i \<longrightarrow> dest' ! i = dest ! i)"
proof -
  have px: "\<forall>c. 0 \<le> c \<and> c < PlanarBitmap.Width p \<longrightarrow>
      ToChunky_pixel p (NumPlanes p) (y * PlanarBitmap.Pitch p + drop_bit 3 c) (7 - (c AND 7)) (0 :: 8 word)
        = Some (planar_pixel p c y)"
    using ToChunky_pixel_planar [OF assms(1,2)] by (simp add: drop_bit_eq_div and_7_mod_8)
  have pre: "PlanarBitmap.Width p = PlanarBitmap.Width p - 0" "0 \<le> PlanarBitmap.Width p" by simp_all
  from ToChunky_serial_row_spec [OF pre assms(3) px] show ?thesis by simp
qed

text \<open>Two buffers that differ from a third in the same run of bytes are the same.\<close>

lemma same_row:
  assumes "length a = length d" "length b = length d"
    "\<forall>x < n. a ! (out + x) = f x" "\<forall>x < n. b ! (out + x) = f x"
    "\<forall>i. i < out \<or> out + n \<le> i \<longrightarrow> a ! i = d ! i"
    "\<forall>i. i < out \<or> out + n \<le> i \<longrightarrow> b ! i = d ! i"
  shows "a = b"
proof (rule nth_equalityI)
  show "length a = length b" using assms(1,2) by simp
next
  fix i assume "i < length a"
  show "a ! i = b ! i"
  proof (cases "i < out \<or> out + n \<le> i")
    case True
    then show ?thesis using assms(5,6) by metis
  next
    case False
    then have "out \<le> i" "i < out + n" by simp_all
    then have "i - out < n" "out + (i - out) = i" by linarith+
    then show ?thesis using assms(3,4) by metis
  qed
qed


text \<open>
  The loop over the rows, from row \<open>y\<close> on: the branch of \<open>ToChunky\<close> for at most 8 planes
  and the bit-serial method return the same buffer, with the pixels of the spec in it.
\<close>

lemma ToChunky_rows_spec:
  assumes "PlanarBitmap_ok p" "NumPlanes p \<le> 8"
    and "n = PlanarBitmap.Height p - y" "y \<le> PlanarBitmap.Height p"
    and "\<forall>t < n. out + t * (PlanarBitmap.Width p + e) + PlanarBitmap.Width p \<le> length dest"
  shows "\<exists>dest'. ToChunky_rows p e y (y * PlanarBitmap.Pitch p) out dest = Some dest'
    \<and> ToChunky_serial (0 :: 8 word) p 1 e y (y * PlanarBitmap.Pitch p) out dest = Some dest'
    \<and> length dest' = length dest
    \<and> (\<forall>t < n. \<forall>x < PlanarBitmap.Width p.
          dest' ! (out + t * (PlanarBitmap.Width p + e) + x) = planar_pixel p x (y + t))
    \<and> (\<forall>i. i < out \<longrightarrow> dest' ! i = dest ! i)"
  using assms(3,4,5)
proof (induction n arbitrary: y out dest)
  case 0
  then have "\<not> y < PlanarBitmap.Height p" by simp
  then show ?case
    by (subst ToChunky_rows.simps, subst ToChunky_serial.simps) simp
next
  case (Suc n)
  let ?W = "PlanarBitmap.Width p" and ?P = "PlanarBitmap.Pitch p"
  let ?S = "PlanarBitmap.Pitch p * PlanarBitmap.Height p"
  have lt: "y < PlanarBitmap.Height p" using Suc.prems(1) by simp
  have fits: "out + ?W \<le> length dest" using Suc.prems(3) by force
  from ToChunky_fast_row [OF assms(1,2) lt fits] obtain d1 where
    f1: "(case ToChunky_rotate p ?S (y * ?P) 0 out dest of
           (x, out1, dest1) \<Rightarrow> ToChunky_overflow p (y * ?P + x) (push_bit 3 x) out1 dest1)
        = Some (out + ?W, d1)"
    and f2: "length d1 = length dest"
    and f3: "\<forall>x < ?W. d1 ! (out + x) = planar_pixel p x y"
    and f4: "\<forall>i. i < out \<or> out + ?W \<le> i \<longrightarrow> d1 ! i = dest ! i"
    by blast
  from ToChunky_serial_row_planar [OF assms(1,2) fits, of y] obtain d2 where
    s1: "ToChunky_serial_row (0 :: 8 word) p 1 (y * ?P) 0 out dest = Some (out + ?W, d2)"
    and s2: "length d2 = length dest"
    and s3: "\<forall>x < ?W. d2 ! (out + x) = planar_pixel p x y"
    and s4: "\<forall>i. i < out \<or> out + ?W \<le> i \<longrightarrow> d2 ! i = dest ! i"
    by blast
  have same: "d2 = d1" using s2 f2 s3 f3 s4 f4 by (rule same_row)
  have next_row: "y * ?P + ?P = (y + 1) * ?P" by simp
  have "ToChunky_rows p e y (y * ?P) out dest
      = ToChunky_rows p e (y + 1) (y * ?P + ?P) (out + ?W + e) d1"
    using lt f1 by (subst ToChunky_rows.simps) (simp add: case_prod_beta)
  then have fast_step: "ToChunky_rows p e y (y * ?P) out dest
      = ToChunky_rows p e (y + 1) ((y + 1) * ?P) (out + ?W + e) d1"
    unfolding next_row .
  have "ToChunky_serial (0 :: 8 word) p 1 e y (y * ?P) out dest
      = ToChunky_serial (0 :: 8 word) p 1 e (y + 1) (y * ?P + ?P) (out + ?W + e) d1"
    using lt s1 same by (subst ToChunky_serial.simps) simp
  then have serial_step: "ToChunky_serial (0 :: 8 word) p 1 e y (y * ?P) out dest
      = ToChunky_serial (0 :: 8 word) p 1 e (y + 1) ((y + 1) * ?P) (out + ?W + e) d1"
    unfolding next_row .
  have pre: "n = PlanarBitmap.Height p - (y + 1)" "y + 1 \<le> PlanarBitmap.Height p"
    using Suc.prems(1) lt by simp_all
  have pre3: "\<forall>t < n. out + ?W + e + t * (?W + e) + ?W \<le> length d1"
  proof (intro allI impI)
    fix t assume "t < n"
    then have "Suc t < Suc n" by simp
    with Suc.prems(3) have "out + Suc t * (?W + e) + ?W \<le> length dest" by blast
    then show "out + ?W + e + t * (?W + e) + ?W \<le> length d1" using f2 by (simp add: algebra_simps)
  qed
  from Suc.IH [OF pre pre3] obtain dest' where
    r1: "ToChunky_rows p e (y + 1) ((y + 1) * ?P) (out + ?W + e) d1 = Some dest'"
    and r2: "ToChunky_serial (0 :: 8 word) p 1 e (y + 1) ((y + 1) * ?P) (out + ?W + e) d1 = Some dest'"
    and r3: "length dest' = length d1"
    and r4: "\<And>t x. t < n \<Longrightarrow> x < ?W \<Longrightarrow>
      dest' ! (out + ?W + e + t * (?W + e) + x) = planar_pixel p x (y + 1 + t)"
    and r5: "\<And>i. i < out + ?W + e \<Longrightarrow> dest' ! i = d1 ! i"
    by blast
  have inside: "dest' ! (out + t * (?W + e) + x) = planar_pixel p x (y + t)"
    if "t < Suc n" "x < ?W" for t x
  proof (cases t)
    case 0
    have "out + x < out + ?W + e" using that(2) by simp
    then show ?thesis using 0 r5 [of "out + x"] f3 that(2) by simp
  next
    case (Suc t')
    then have "t' < n" using that(1) by simp
    from r4 [OF this that(2)] show ?thesis unfolding Suc by (simp add: algebra_simps)
  qed
  have outside: "dest' ! i = dest ! i" if "i < out" for i
    using that r5 [of i] f4 by simp
  show ?case
    unfolding fast_step serial_step using r1 r2 r3 f2 inside outside by simp
qed

text \<open>
  Claim C7. For a well-formed planar bitmap of 1 to 8 planes and a destination that holds
  every row (row \<open>y\<close> starts at \<open>y * (Width + destextrawidth)\<close>), \<open>ToChunky\<close> returns the
  destination with, for the pixel in column \<open>x\<close> of row \<open>y\<close>, the byte whose bit \<open>i\<close> is
  set exactly when \<open>i < NumPlanes\<close> and bit \<open>7 - x mod 8\<close> of the byte of plane \<open>i\<close> at
  offset \<open>y * Pitch + x / 8\<close> is set, where plane \<open>i\<close> starts at \<open>Planes[i]\<close>; the bits
  from \<open>NumPlanes\<close> on are zero. The result is the very buffer that the bit-serial method
  returns when it is applied to every column. The call of \<open>rotate8x8\<close> for the groups of 8
  columns is taken as the spec describes it.
\<close>

theorem ToChunky_bit_planes:
  assumes "PlanarBitmap_ok p" "1 \<le> NumPlanes p" "NumPlanes p \<le> 8"
    and "\<forall>y < PlanarBitmap.Height p.
      y * (PlanarBitmap.Width p + destextrawidth) + PlanarBitmap.Width p \<le> length dest"
  shows "\<exists>dest'. ToChunky p dest destextrawidth = Some dest'
    \<and> length dest' = length dest
    \<and> (\<forall>y < PlanarBitmap.Height p. \<forall>x < PlanarBitmap.Width p. \<forall>i.
          bit (dest' ! (y * (PlanarBitmap.Width p + destextrawidth) + x)) i \<longleftrightarrow>
            i < NumPlanes p
            \<and> bit (PlaneData p ! (PlanarBitmap.Pitch p * PlanarBitmap.Height p * i
                  + (y * PlanarBitmap.Pitch p + x div 8))) (7 - x mod 8))
    \<and> (\<forall>i < NumPlanes p. Planes p ! i = Some (PlanarBitmap.Pitch p * PlanarBitmap.Height p * i))
    \<and> ToChunky_serial (0 :: 8 word) p 1 destextrawidth 0 0 0 dest = Some dest'"
proof -
  have pre: "PlanarBitmap.Height p = PlanarBitmap.Height p - 0" "0 \<le> PlanarBitmap.Height p"
    "\<forall>t < PlanarBitmap.Height p.
      0 + t * (PlanarBitmap.Width p + destextrawidth) + PlanarBitmap.Width p \<le> length dest"
    using assms(4) by simp_all
  from ToChunky_rows_spec [OF assms(1,3) pre] obtain dest' where
    r1: "ToChunky_rows p destextrawidth 0 (0 * PlanarBitmap.Pitch p) 0 dest = Some dest'"
    and r2: "ToChunky_serial (0 :: 8 word) p 1 destextrawidth 0 (0 * PlanarBitmap.Pitch p) 0 dest = Some dest'"
    and r3: "length dest' = length dest"
    and r4: "\<And>t x. t < PlanarBitmap.Height p \<Longrightarrow> x < PlanarBitmap.Width p \<Longrightarrow>
      dest' ! (0 + t * (PlanarBitmap.Width p + destextrawidth) + x) = planar_pixel p x (0 + t)"
    by blast
  have run: "ToChunky p dest destextrawidth = Some dest'"
    using r1 assms(2,3) by (simp add: ToChunky_def)
  have bits: "bit (dest' ! (y * (PlanarBitmap.Width p + destextrawidth) + x)) i \<longleftrightarrow>
      i < NumPlanes p
      \<and> bit (PlaneData p ! (PlanarBitmap.Pitch p * PlanarBitmap.Height p * i
            + (y * PlanarBitmap.Pitch p + x div 8))) (7 - x mod 8)"
    if "y < PlanarBitmap.Height p" "x < PlanarBitmap.Width p" for y x i
    using r4 [OF that] planar_pixel_bits [OF assms(3), of x y i] by simp
  have planes: "\<forall>i < NumPlanes p. Planes p ! i = Some (PlanarBitmap.Pitch p * PlanarBitmap.Height p * i)"
    using assms(1) by (simp add: Planes_nth)
  show ?thesis using run r2 r3 bits planes by simp
qed

text \<open>
  Witness for C7: two planes, two rows of 11 pixels (one call of \<open>rotate8x8\<close> and three
  columns left in each), written into rows of 13 bytes.
\<close>

theorem ToChunky_bit_planes_witness:
  "ToChunky
     \<lparr>PlanarBitmap.Width = 11, PlanarBitmap.Height = 2, PlanarBitmap.Pitch = 2, NumPlanes = 2,
       Planes = map (\<lambda>i. if i < 2 then Some (4 * i) else None) [0..<32],
       PlaneData = [0xA5, 0xC0, 0x0F, 0x20, 0xFF, 0x00, 0x33, 0xE0] @ replicate 24 0\<rparr>
     (replicate 27 7) 2
   = Some [3, 2, 3, 2, 2, 3, 2, 3, 1, 1, 0, 7, 7, 0, 0, 2, 2, 1, 1, 3, 3, 2, 2, 3, 7, 7, 7]
   \<and> PlanarBitmap_ok
     \<lparr>PlanarBitmap.Width = 11, PlanarBitmap.Height = 2, PlanarBitmap.Pitch = 2, NumPlanes = 2,
       Planes = map (\<lambda>i. if i < 2 then Some (4 * i) else None) [0..<32],
       PlaneData = [0xA5, 0xC0, 0x0F, 0x20, 0xFF, 0x00, 0x33, 0xE0] @ replicate 24 0\<rparr>"
proof -
  let ?p = "\<lparr>PlanarBitmap.Width = 11, PlanarBitmap.Height = 2, PlanarBitmap.Pitch = 2, NumPlanes = 2,
       Planes = map (\<lambda>i. if i < 2 then Some (4 * i) else None) [0..<32],
       PlaneData = [0xA5, 0xC0, 0x0F, 0x20, 0xFF, 0x00, 0x33, 0xE0] @ replicate 24 0\<rparr>"
  have ok: "PlanarBitmap_ok ?p" by (simp add: PlanarBitmap_ok_def nth_append)
  have planes: "1 \<le> NumPlanes ?p" "NumPlanes ?p \<le> 8" by simp_all
  have fits: "\<forall>y < PlanarBitmap.Height ?p.
      y * (PlanarBitmap.Width ?p + 2) + PlanarBitmap.Width ?p \<le> length (replicate 27 (7 :: 8 word))"
    by (simp add: less_Suc_eq numeral_2_eq_2)
  have run: "ToChunky ?p (replicate 27 7) 2
      = Some [3, 2, 3, 2, 2, 3, 2, 3, 1, 1, 0, 7, 7, 0, 0, 2, 2, 1, 1, 3, 3, 2, 2, 3, 7, 7, 7]"
    by code_simp
  from ToChunky_bit_planes [OF ok planes fits]
  have "\<exists>dest'. ToChunky ?p (replicate 27 7) 2 = Some dest' \<and> length dest' = 27" by auto
  with run ok show ?thesis by simp
qed

end
